theory Spec2Isabelle
  imports Main "HOL-Library.Word"
begin

section \<open>The LRU cache of cppExamples/lru\_cache.cpp\<close>

subsection \<open>Data\<close>

text \<open>
  Keys, values and the capacity are C++ \<open>int\<close>s: 32-bit two's complement words.
  \<open>struct Node { int key; int val; }\<close> is a record.
\<close>

type_synonym c_int = "32 word"

record Node =
  key :: c_int
  val :: c_int

text \<open>
  A \<open>list<Node>::iterator\<close> names one node of the list and stays valid while that node is
  in the list. It is modelled as the identity of the node (a number); the list is the
  sequence of its nodes, front first, each with its identity.
  An iterator of the \<open>unordered_map\<close> is the entry it points to, or \<open>None\<close> for
  \<open>end()\<close>; the map is the sequence of its entries (their order is never observed).
\<close>

type_synonym handle = nat
type_synonym node_list = "(handle \<times> Node) list"
type_synonym umap = "(c_int \<times> handle) list"
type_synonym umap_iterator = "(c_int \<times> handle) option"

text \<open>
  The operations of the standard containers whose precondition the caller must
  establish have undefined behaviour outside it. Each such case is an error value.
\<close>

datatype error =
    FrontOfEmptyList
  | PopFrontOfEmptyList
  | PrevOfBeginIterator
  | InvalidListIterator
  | EraseInvalidMapIterator

record LRUCache =
  priorityQ :: node_list
  keyToNode :: umap
  capacity :: c_int
  next_node :: handle

text \<open>
  \<open>next_node\<close> is the identity the next allocated list node receives: identities are
  never reused, so an iterator to an erased node is invalid for ever.
\<close>

subsection \<open>The container operations used by the cache\<close>

definition list_deref :: "handle \<Rightarrow> node_list \<Rightarrow> error + Node" where
  "list_deref h q = (case map_of q h of None \<Rightarrow> Inl InvalidListIterator | Some n \<Rightarrow> Inr n)"

definition list_erase :: "handle \<Rightarrow> node_list \<Rightarrow> error + node_list" where
  "list_erase h q =
     (if h \<in> set (map fst q) then Inr (filter (\<lambda>c. fst c \<noteq> h) q) else Inl InvalidListIterator)"

definition list_front :: "node_list \<Rightarrow> error + Node" where
  "list_front q = (case q of [] \<Rightarrow> Inl FrontOfEmptyList | c # _ \<Rightarrow> Inr (snd c))"

definition list_pop_front :: "node_list \<Rightarrow> error + node_list" where
  "list_pop_front q = (case q of [] \<Rightarrow> Inl PopFrontOfEmptyList | _ # r \<Rightarrow> Inr r)"

definition list_push_back :: "handle \<Rightarrow> Node \<Rightarrow> node_list \<Rightarrow> node_list" where
  "list_push_back a n q = q @ [(a, n)]"

text \<open>\<open>prev(priorityQ.end())\<close>: the iterator to the last node.\<close>

definition list_prev_end :: "node_list \<Rightarrow> error + handle" where
  "list_prev_end q = (if q = [] then Inl PrevOfBeginIterator else Inr (fst (last q)))"

definition umap_find :: "c_int \<Rightarrow> umap \<Rightarrow> umap_iterator" where
  "umap_find k m = (case map_of m k of None \<Rightarrow> None | Some h \<Rightarrow> Some (k, h))"

definition umap_erase :: "umap_iterator \<Rightarrow> umap \<Rightarrow> error + umap" where
  "umap_erase it m =
     (case it of
        None \<Rightarrow> Inl EraseInvalidMapIterator
      | Some e \<Rightarrow>
          if e \<in> set m then Inr (filter (\<lambda>e'. fst e' \<noteq> fst e) m)
          else Inl EraseInvalidMapIterator)"

text \<open>\<open>unordered_map::insert\<close> leaves the map as it is when the key is already there.\<close>

definition umap_insert :: "c_int \<times> handle \<Rightarrow> umap \<Rightarrow> umap" where
  "umap_insert e m = (if map_of m (fst e) = None then m @ [e] else m)"

definition umap_size :: "umap \<Rightarrow> nat" where
  "umap_size m = length m"

text \<open>
  \<open>capacity == keyToNode.size()\<close> compares an \<open>int\<close> with a \<open>size_t\<close>: the \<open>int\<close> is
  converted to the unsigned 64-bit type first, so a negative capacity becomes a huge
  number.
\<close>

definition size_t_of_int :: "c_int \<Rightarrow> nat" where
  "size_t_of_int c = unat (scast c :: 64 word)"

subsection \<open>The cache\<close>

text \<open>The constructor stores the capacity; both containers start empty.\<close>

definition new_LRUCache :: "c_int \<Rightarrow> LRUCache" where
  "new_LRUCache c = \<lparr>priorityQ = [], keyToNode = [], capacity = c, next_node = 0\<rparr>"

text \<open>
  Lines 36-37 and 59-60: \<open>priorityQ.push_back({key, value})\<close>, then
  \<open>keyToNode.insert({key, prev(priorityQ.end())})\<close>.
\<close>

definition push_and_index :: "c_int \<Rightarrow> c_int \<Rightarrow> LRUCache \<Rightarrow> error + LRUCache" where
  "push_and_index k v s =
     (let q = list_push_back (next_node s) \<lparr>key = k, val = v\<rparr> (priorityQ s) in
      case list_prev_end q of
        Inl e \<Rightarrow> Inl e
      | Inr h \<Rightarrow>
          Inr (s\<lparr>priorityQ := q,
                 keyToNode := umap_insert (k, h) (keyToNode s),
                 next_node := Suc (next_node s)\<rparr>))"

text \<open>
  Lines 34-35 and 55-56: \<open>priorityQ.erase(kToNode->second)\<close>, then
  \<open>keyToNode.erase(kToNode)\<close>.
\<close>

definition erase_both :: "c_int \<times> handle \<Rightarrow> LRUCache \<Rightarrow> error + LRUCache" where
  "erase_both e s =
     (case list_erase (snd e) (priorityQ s) of
        Inl err \<Rightarrow> Inl err
      | Inr q \<Rightarrow>
          (case umap_erase (Some e) (keyToNode s) of
             Inl err \<Rightarrow> Inl err
           | Inr m \<Rightarrow> Inr (s\<lparr>priorityQ := q, keyToNode := m\<rparr>)))"

text \<open>Lines 48-50: the body of the eviction branch of \<open>put\<close>.\<close>

definition evict :: "LRUCache \<Rightarrow> error + LRUCache" where
  "evict s =
     (case list_front (priorityQ s) of
        Inl err \<Rightarrow> Inl err
      | Inr n \<Rightarrow>
          (let keyToEvict = key n in
           case umap_erase (umap_find keyToEvict (keyToNode s)) (keyToNode s) of
             Inl err \<Rightarrow> Inl err
           | Inr m \<Rightarrow>
               (case list_pop_front (priorityQ s) of
                  Inl err \<Rightarrow> Inl err
                | Inr q \<Rightarrow> Inr (s\<lparr>priorityQ := q, keyToNode := m\<rparr>))))"

definition get :: "c_int \<Rightarrow> LRUCache \<Rightarrow> error + (c_int \<times> LRUCache)" where
  "get k s =
     (case umap_find k (keyToNode s) of
        None \<Rightarrow> Inr (- 1, s)
      | Some kToNode \<Rightarrow>
          (case list_deref (snd kToNode) (priorityQ s) of
             Inl err \<Rightarrow> Inl err
           | Inr n \<Rightarrow>
               (let valToReturn = val n in
                case erase_both kToNode s of
                  Inl err \<Rightarrow> Inl err
                | Inr s1 \<Rightarrow>
                    (case push_and_index k valToReturn s1 of
                       Inl err \<Rightarrow> Inl err
                     | Inr s2 \<Rightarrow> Inr (valToReturn, s2)))))"

definition put :: "c_int \<Rightarrow> c_int \<Rightarrow> LRUCache \<Rightarrow> error + LRUCache" where
  "put k v s =
     (let kToNode = umap_find k (keyToNode s);
          keyExist = (kToNode \<noteq> None)
      in
      case (if size_t_of_int (capacity s) = umap_size (keyToNode s) \<and> \<not> keyExist
            then evict s else Inr s) of
        Inl err \<Rightarrow> Inl err
      | Inr s1 \<Rightarrow>
          (case (if keyExist
                 then (case kToNode of
                         None \<Rightarrow> Inl EraseInvalidMapIterator
                       | Some e \<Rightarrow> erase_both e s1)
                 else Inr s1) of
             Inl err \<Rightarrow> Inl err
           | Inr s2 \<Rightarrow> push_and_index k v s2))"

subsection \<open>Sequences of calls\<close>

datatype op = Get c_int | Put c_int c_int

fun op_key :: "op \<Rightarrow> c_int" where
  "op_key (Get k) = k"
| "op_key (Put k v) = k"

fun step :: "op \<Rightarrow> LRUCache \<Rightarrow> error + LRUCache" where
  "step (Get k) s = (case get k s of Inl err \<Rightarrow> Inl err | Inr r \<Rightarrow> Inr (snd r))"
| "step (Put k v) s = put k v s"

fun run :: "op list \<Rightarrow> LRUCache \<Rightarrow> error + LRUCache" where
  "run [] s = Inr s"
| "run (x # xs) s = (case step x s of Inl err \<Rightarrow> Inl err | Inr s' \<Rightarrow> run xs s')"

text \<open>
  The states a cache constructed with capacity \<open>c\<close> can be in: after construction, and
  after every call of \<open>get\<close> or \<open>put\<close> that returns.
\<close>

inductive reachable :: "c_int \<Rightarrow> LRUCache \<Rightarrow> bool" for c :: c_int where
  constructed: "reachable c (new_LRUCache c)"
| after_get: "reachable c s \<Longrightarrow> get k s = Inr (v, s') \<Longrightarrow> reachable c s'"
| after_put: "reachable c s \<Longrightarrow> put k v s = Inr s' \<Longrightarrow> reachable c s'"

subsection \<open>What a caller can observe\<close>

text \<open>The cached keys from least to most recently used, and the value cached for a key.\<close>

definition keys_of :: "LRUCache \<Rightarrow> c_int list" where
  "keys_of s = map (\<lambda>c. key (snd c)) (priorityQ s)"

definition cached :: "LRUCache \<Rightarrow> c_int \<Rightarrow> c_int option" where
  "cached s k =
     (case umap_find k (keyToNode s) of
        None \<Rightarrow> None
      | Some e \<Rightarrow> map_option val (map_of (priorityQ s) (snd e)))"

text \<open>
  The coupling of index and list: node identities and indexed keys are unique, every
  identity in use is older than \<open>next_node\<close>, and the index holds exactly one entry
  \<open>(key, iterator)\<close> for every node of the list.
\<close>

definition coupled :: "LRUCache \<Rightarrow> bool" where
  "coupled s \<longleftrightarrow>
     distinct (map fst (priorityQ s)) \<and>
     distinct (map fst (keyToNode s)) \<and>
     (\<forall>h \<in> set (map fst (priorityQ s)). h < next_node s) \<and>
     set (keyToNode s) = (\<lambda>c. (key (snd c), fst c)) ` set (priorityQ s)"

text \<open>The cached (key, value) pairs from least to most recently used.\<close>

definition contents :: "LRUCache \<Rightarrow> (c_int \<times> c_int) list" where
  "contents s = map (\<lambda>c. (key (snd c), val (snd c))) (priorityQ s)"

section \<open>Properties\<close>

subsection \<open>Lookups in the index\<close>

lemma get_miss: "umap_find k (keyToNode s) = None \<Longrightarrow> get k s = Inr (- 1, s)"
  by (simp add: get_def)

lemma umap_find_Some: "umap_find k m = Some e \<longleftrightarrow> (fst e = k \<and> map_of m k = Some (snd e))"
  by (auto simp: umap_find_def split: option.splits)

lemma umap_find_None: "umap_find k m = None \<longleftrightarrow> k \<notin> fst ` set m"
  by (auto simp: umap_find_def map_of_eq_None_iff split: option.splits dest: map_of_SomeD intro: rev_image_eqI)

lemma coupled_index_node:
  assumes "coupled s" "umap_find k (keyToNode s) = Some e"
  shows "\<exists>n. map_of (priorityQ s) (snd e) = Some n \<and> key n = k \<and> fst e = k \<and> e \<in> set (keyToNode s)"
proof -
  from assms(2) have fe: "fst e = k" and mo: "map_of (keyToNode s) k = Some (snd e)"
    by (simp_all add: umap_find_Some)
  from mo have "(k, snd e) \<in> set (keyToNode s)" by (rule map_of_SomeD)
  with assms(1) obtain c where c: "c \<in> set (priorityQ s)" "key (snd c) = k" "fst c = snd e"
    by (auto simp: coupled_def)
  from assms(1) have "distinct (map fst (priorityQ s))" by (simp add: coupled_def)
  with c have "map_of (priorityQ s) (snd e) = Some (snd c)"
    by (metis map_of_is_SomeI prod.collapse)
  with c fe \<open>(k, snd e) \<in> set (keyToNode s)\<close> show ?thesis by (cases e) auto
qed

subsection \<open>The calls, case by case\<close>

lemma map_of_filter_fst_neq [simp]: "map_of (filter (\<lambda>e. fst e \<noteq> k) m) k = None"
  by (simp add: map_of_eq_None_iff image_iff)

lemma erase_both_hit:
  assumes "coupled s" "umap_find k (keyToNode s) = Some e"
  shows "erase_both e s =
           Inr (s\<lparr>priorityQ := filter (\<lambda>c. fst c \<noteq> snd e) (priorityQ s),
                  keyToNode := filter (\<lambda>e'. fst e' \<noteq> k) (keyToNode s)\<rparr>)"
proof -
  from coupled_index_node [OF assms] obtain n where
    n: "map_of (priorityQ s) (snd e) = Some n" "fst e = k" "e \<in> set (keyToNode s)" by blast
  from n(1) have "snd e \<in> fst ` set (priorityQ s)"
    by (metis map_of_eq_None_iff option.distinct(1))
  with n show ?thesis
    by (simp add: erase_both_def list_erase_def umap_erase_def)
qed

lemma push_and_index_new:
  assumes "map_of (keyToNode s) k = None"
  shows "push_and_index k v s =
           Inr (s\<lparr>priorityQ := priorityQ s @ [(next_node s, \<lparr>key = k, val = v\<rparr>)],
                  keyToNode := keyToNode s @ [(k, next_node s)],
                  next_node := Suc (next_node s)\<rparr>)"
  using assms
  by (simp add: push_and_index_def list_push_back_def list_prev_end_def umap_insert_def)

lemma get_hit:
  assumes "coupled s" "umap_find k (keyToNode s) = Some e"
  shows "\<exists>n. map_of (priorityQ s) (snd e) = Some n \<and> key n = k \<and>
           get k s =
             Inr (val n,
                  s\<lparr>priorityQ := filter (\<lambda>c. fst c \<noteq> snd e) (priorityQ s) @
                                     [(next_node s, \<lparr>key = k, val = val n\<rparr>)],
                    keyToNode := filter (\<lambda>e'. fst e' \<noteq> k) (keyToNode s) @ [(k, next_node s)],
                    next_node := Suc (next_node s)\<rparr>)"
proof -
  from coupled_index_node [OF assms] obtain n where
    n: "map_of (priorityQ s) (snd e) = Some n" "key n = k" by blast
  show ?thesis
    using n assms(2)
    by (simp add: get_def Let_def list_deref_def erase_both_hit [OF assms] push_and_index_new)
qed

lemma put_hit:
  assumes "coupled s" "umap_find k (keyToNode s) = Some e"
  shows "put k v s =
             Inr (s\<lparr>priorityQ := filter (\<lambda>c. fst c \<noteq> snd e) (priorityQ s) @
                                     [(next_node s, \<lparr>key = k, val = v\<rparr>)],
                    keyToNode := filter (\<lambda>e'. fst e' \<noteq> k) (keyToNode s) @ [(k, next_node s)],
                    next_node := Suc (next_node s)\<rparr>)"
  using assms(2)
  by (simp add: put_def Let_def erase_both_hit [OF assms] push_and_index_new del: not_None_eq)

lemma put_new_room:
  assumes "umap_find k (keyToNode s) = None"
    and "size_t_of_int (capacity s) \<noteq> umap_size (keyToNode s)"
  shows "put k v s =
           Inr (s\<lparr>priorityQ := priorityQ s @ [(next_node s, \<lparr>key = k, val = v\<rparr>)],
                  keyToNode := keyToNode s @ [(k, next_node s)],
                  next_node := Suc (next_node s)\<rparr>)"
proof -
  from assms(1) have "map_of (keyToNode s) k = None"
    by (simp add: umap_find_def split: option.splits)
  with assms show ?thesis
    by (simp add: put_def Let_def push_and_index_new del: not_None_eq)
qed

lemma put_new_full_empty:
  assumes "umap_find k (keyToNode s) = None"
    and "size_t_of_int (capacity s) = umap_size (keyToNode s)"
    and "priorityQ s = []"
  shows "put k v s = Inl FrontOfEmptyList"
  using assms by (simp add: put_def Let_def evict_def list_front_def del: not_None_eq)

lemma evict_front:
  assumes "coupled s" "priorityQ s = c # r"
  shows "evict s = Inr (s\<lparr>priorityQ := r,
                           keyToNode := filter (\<lambda>e'. fst e' \<noteq> key (snd c)) (keyToNode s)\<rparr>)"
proof -
  from assms have "(key (snd c), fst c) \<in> set (keyToNode s)"
    by (simp add: coupled_def)
  moreover from assms(1) have "distinct (map fst (keyToNode s))" by (simp add: coupled_def)
  ultimately have "map_of (keyToNode s) (key (snd c)) = Some (fst c)"
    by (simp add: map_of_is_SomeI)
  with assms(2) \<open>(key (snd c), fst c) \<in> set (keyToNode s)\<close> show ?thesis
    by (simp add: evict_def list_front_def list_pop_front_def umap_find_def umap_erase_def)
qed

lemma put_new_full:
  assumes "coupled s" "umap_find k (keyToNode s) = None"
    and "size_t_of_int (capacity s) = umap_size (keyToNode s)"
    and "priorityQ s = c # r"
  shows "put k v s =
           Inr (s\<lparr>priorityQ := r @ [(next_node s, \<lparr>key = k, val = v\<rparr>)],
                  keyToNode := filter (\<lambda>e'. fst e' \<noteq> key (snd c)) (keyToNode s) @ [(k, next_node s)],
                  next_node := Suc (next_node s)\<rparr>)"
proof -
  from assms(2) have "map_of (keyToNode s) k = None"
    by (simp add: umap_find_def split: option.splits)
  then have "k \<notin> fst ` set (keyToNode s)" by (simp add: map_of_eq_None_iff)
  then have "map_of (filter (\<lambda>e'. fst e' \<noteq> key (snd c)) (keyToNode s)) k = None"
    by (auto simp: map_of_eq_None_iff)
  with assms(2,3) show ?thesis
    by (simp add: put_def Let_def evict_front [OF assms(1,4)] push_and_index_new del: not_None_eq)
qed

subsection \<open>The coupling is preserved by each change\<close>

lemma distinct_fst_unique:
  assumes "distinct (map fst xs)" "x \<in> set xs" "y \<in> set xs" "fst x = fst y"
  shows "x = y"
proof -
  from assms(1,2) have "map_of xs (fst x) = Some (snd x)" by (simp add: map_of_is_SomeI)
  moreover from assms(1,3) have "map_of xs (fst y) = Some (snd y)" by (simp add: map_of_is_SomeI)
  ultimately show ?thesis using assms(4) by (simp add: prod_eq_iff)
qed

lemma coupled_remove:
  assumes "coupled s" "(h, n) \<in> set (priorityQ s)"
  shows "coupled (s\<lparr>priorityQ := filter (\<lambda>c. fst c \<noteq> h) (priorityQ s),
                    keyToNode := filter (\<lambda>e. fst e \<noteq> key n) (keyToNode s)\<rparr>)"
proof -
  let ?q = "priorityQ s" and ?m = "keyToNode s"
  let ?f = "\<lambda>c::handle \<times> Node. (key (snd c), fst c)"
  from assms(1) have dq: "distinct (map fst ?q)" and dm: "distinct (map fst ?m)"
    and lt: "\<forall>h \<in> set (map fst ?q). h < next_node s"
    and eq: "set ?m = ?f ` set ?q"
    by (simp_all add: coupled_def)
  have uq: "c = (h, n)" if "c \<in> set ?q" "fst c = h" for c
    using distinct_fst_unique [OF dq that(1) assms(2)] that(2) by simp
  have um: "e = (key n, h)" if "e \<in> set ?m" "fst e = key n" for e
  proof -
    from assms(2) eq have "(key n, h) \<in> set ?m" by force
    then show ?thesis using distinct_fst_unique [OF dm that(1), of "(key n, h)"] that(2) by simp
  qed
  have "set (filter (\<lambda>e. fst e \<noteq> key n) ?m) = ?f ` set (filter (\<lambda>c. fst c \<noteq> h) ?q)"
  proof (intro set_eqI iffI)
    fix e assume "e \<in> set (filter (\<lambda>e. fst e \<noteq> key n) ?m)"
    then have e: "e \<in> set ?m" "fst e \<noteq> key n" by simp_all
    with eq obtain c where c: "c \<in> set ?q" "e = ?f c" by auto
    have "fst c \<noteq> h"
    proof
      assume "fst c = h"
      with uq [OF c(1)] have "c = (h, n)" by simp
      with c(2) e(2) show False by simp
    qed
    with c show "e \<in> ?f ` set (filter (\<lambda>c. fst c \<noteq> h) ?q)" by simp
  next
    fix e assume "e \<in> ?f ` set (filter (\<lambda>c. fst c \<noteq> h) ?q)"
    then obtain c where c: "c \<in> set ?q" "fst c \<noteq> h" "e = ?f c" by auto
    with eq have "e \<in> set ?m" by auto
    moreover have "fst e \<noteq> key n" using um [OF \<open>e \<in> set ?m\<close>] c by auto
    ultimately show "e \<in> set (filter (\<lambda>e. fst e \<noteq> key n) ?m)" by simp
  qed
  with dq dm lt show ?thesis
    by (simp add: coupled_def distinct_map_filter)
qed

lemma coupled_append:
  assumes "coupled s" "k \<notin> fst ` set (keyToNode s)"
  shows "coupled (s\<lparr>priorityQ := priorityQ s @ [(next_node s, \<lparr>key = k, val = v\<rparr>)],
                    keyToNode := keyToNode s @ [(k, next_node s)],
                    next_node := Suc (next_node s)\<rparr>)"
  using assms by (auto simp: coupled_def)

lemma filter_fst_neq_absent:
  "k \<notin> fst ` set m \<Longrightarrow> filter (\<lambda>e. fst e \<noteq> k) m = m"
  by (induction m) auto

lemma coupled_pop:
  assumes "coupled s" "priorityQ s = c # r"
  shows "coupled (s\<lparr>priorityQ := r,
                    keyToNode := filter (\<lambda>e. fst e \<noteq> key (snd c)) (keyToNode s)\<rparr>)"
proof -
  from assms have "fst c \<notin> fst ` set r" by (simp add: coupled_def)
  then have "filter (\<lambda>c'. fst c' \<noteq> fst c) (priorityQ s) = r"
    by (simp add: assms(2) filter_fst_neq_absent)
  moreover have "(fst c, snd c) \<in> set (priorityQ s)" by (simp add: assms(2))
  ultimately show ?thesis using coupled_remove [OF assms(1), of "fst c" "snd c"] by simp
qed

subsection \<open>The coupling holds in every reachable state\<close>

lemma coupled_new: "coupled (new_LRUCache c)"
  by (simp add: coupled_def new_LRUCache_def)

lemma map_of_in_set: "map_of xs a = Some b \<Longrightarrow> (a, b) \<in> set xs"
  by (rule map_of_SomeD)

lemma coupled_get:
  assumes "coupled s" "get k s = Inr (v, s')"
  shows "coupled s'"
proof (cases "umap_find k (keyToNode s)")
  case None
  with assms show ?thesis by (simp add: get_miss)
next
  case (Some e)
  from get_hit [OF assms(1) Some] obtain n where
    n: "map_of (priorityQ s) (snd e) = Some n" "key n = k"
    and g: "get k s = Inr (val n,
                  s\<lparr>priorityQ := filter (\<lambda>c. fst c \<noteq> snd e) (priorityQ s) @
                                     [(next_node s, \<lparr>key = k, val = val n\<rparr>)],
                    keyToNode := filter (\<lambda>e'. fst e' \<noteq> k) (keyToNode s) @ [(k, next_node s)],
                    next_node := Suc (next_node s)\<rparr>)" by blast
  let ?s1 = "s\<lparr>priorityQ := filter (\<lambda>c. fst c \<noteq> snd e) (priorityQ s),
               keyToNode := filter (\<lambda>e'. fst e' \<noteq> k) (keyToNode s)\<rparr>"
  from n have "coupled ?s1"
    using coupled_remove [OF assms(1) map_of_SomeD [OF n(1)]] by simp
  from coupled_append [OF this, of k "val n"] g assms(2) show ?thesis by auto
qed

lemma coupled_put:
  assumes "coupled s" "put k v s = Inr s'"
  shows "coupled s'"
proof (cases "umap_find k (keyToNode s)")
  case (Some e)
  from coupled_index_node [OF assms(1) Some] obtain n where
    n: "map_of (priorityQ s) (snd e) = Some n" "key n = k" by blast
  let ?s1 = "s\<lparr>priorityQ := filter (\<lambda>c. fst c \<noteq> snd e) (priorityQ s),
               keyToNode := filter (\<lambda>e'. fst e' \<noteq> k) (keyToNode s)\<rparr>"
  from n have "coupled ?s1"
    using coupled_remove [OF assms(1) map_of_SomeD [OF n(1)]] by simp
  from coupled_append [OF this, of k v] put_hit [OF assms(1) Some, of v] assms(2)
  show ?thesis by auto
next
  case None
  then have absent: "k \<notin> fst ` set (keyToNode s)" by (simp add: umap_find_None)
  show ?thesis
  proof (cases "size_t_of_int (capacity s) = umap_size (keyToNode s)")
    case False
    from coupled_append [OF assms(1) absent, of v] put_new_room [OF None False, of v] assms(2)
    show ?thesis by simp
  next
    case True
    show ?thesis
    proof (cases "priorityQ s")
      case Nil
      with put_new_full_empty [OF None True, of v] assms(2) show ?thesis by simp
    next
      case (Cons c r)
      let ?s1 = "s\<lparr>priorityQ := r,
                    keyToNode := filter (\<lambda>e. fst e \<noteq> key (snd c)) (keyToNode s)\<rparr>"
      have "coupled ?s1" by (rule coupled_pop [OF assms(1) Cons])
      moreover from absent have "k \<notin> fst ` set (keyToNode ?s1)" by auto
      ultimately have "coupled (?s1\<lparr>priorityQ := priorityQ ?s1 @ [(next_node ?s1, \<lparr>key = k, val = v\<rparr>)],
                    keyToNode := keyToNode ?s1 @ [(k, next_node ?s1)],
                    next_node := Suc (next_node ?s1)\<rparr>)"
        by (rule coupled_append)
      with put_new_full [OF assms(1) None True Cons, of v] assms(2) show ?thesis by simp
    qed
  qed
qed

lemma reachable_coupled: "reachable c s \<Longrightarrow> coupled s"
  by (induction rule: reachable.induct) (auto intro: coupled_new coupled_get coupled_put)

lemma coupled_length:
  assumes "coupled s"
  shows "length (keyToNode s) = length (priorityQ s)"
proof -
  let ?f = "\<lambda>c::handle \<times> Node. (key (snd c), fst c)"
  from assms have dq: "distinct (map fst (priorityQ s))" and dm: "distinct (map fst (keyToNode s))"
    and eq: "set (keyToNode s) = ?f ` set (priorityQ s)"
    by (simp_all add: coupled_def)
  from dq have "inj_on fst (set (priorityQ s))" and "distinct (priorityQ s)"
    by (simp_all add: distinct_map)
  then have "inj_on ?f (set (priorityQ s))"
    by (auto simp: inj_on_def)
  then have "card (?f ` set (priorityQ s)) = card (set (priorityQ s))" by (rule card_image)
  moreover from dm have "distinct (keyToNode s)" by (simp add: distinct_map)
  ultimately show ?thesis
    using eq \<open>distinct (priorityQ s)\<close> by (metis distinct_card)
qed

subsection \<open>The capacity as a size\<close>

lemma sint_nonneg_uint:
  fixes w :: "'a::len word"
  assumes "0 \<le> sint w"
  shows "uint w = sint w"
proof -
  have "sint w < 2 ^ (LENGTH('a) - 1)" by (rule sint_lt)
  also have "\<dots> \<le> (2::int) ^ LENGTH('a)" by (rule power_increasing) simp_all
  finally have lt: "sint w < 2 ^ LENGTH('a)" .
  have "uint w = uint (word_of_int (sint w) :: 'a word)" by simp
  also have "\<dots> = take_bit LENGTH('a) (sint w)" by (rule uint_word_of_int_eq)
  also have "\<dots> = sint w" using assms lt by (simp add: take_bit_int_eq_self)
  finally show ?thesis .
qed

lemma size_t_of_int_nonneg: "0 \<le> sint c \<Longrightarrow> size_t_of_int c = nat (sint c)"
proof -
  assume a: "0 \<le> sint c"
  have "sint (scast c :: 64 word) = sint c"
    by (rule sint_up_scast) (simp add: is_up)
  with a have "uint (scast c :: 64 word) = sint c"
    using sint_nonneg_uint [of "scast c :: 64 word"] by simp
  then show ?thesis by (simp add: size_t_of_int_def unat_eq_nat_uint)
qed


subsection \<open>The list view of a coupled cache\<close>

lemma keys_of_contents: "keys_of s = map fst (contents s)"
  by (simp add: keys_of_def contents_def)

lemma coupled_keys_index:
  assumes "coupled s"
  shows "fst ` set (keyToNode s) = set (keys_of s)"
proof -
  from assms have "set (keyToNode s) = (\<lambda>c. (key (snd c), fst c)) ` set (priorityQ s)"
    by (simp add: coupled_def)
  then show ?thesis by (simp add: keys_of_def image_image)
qed

lemma coupled_key_handle:
  assumes "coupled s" "c \<in> set (priorityQ s)" "c' \<in> set (priorityQ s)"
  shows "key (snd c) = key (snd c') \<longleftrightarrow> fst c = fst c'"
proof
  assume "fst c = fst c'"
  moreover from assms(1) have "distinct (map fst (priorityQ s))" by (simp add: coupled_def)
  ultimately have "c = c'" using assms(2,3) by (rule_tac distinct_fst_unique)
  then show "key (snd c) = key (snd c')" by simp
next
  assume k: "key (snd c) = key (snd c')"
  from assms have "(key (snd c), fst c) \<in> set (keyToNode s)"
    and "(key (snd c'), fst c') \<in> set (keyToNode s)"
    by (auto simp: coupled_def)
  moreover from assms(1) have "distinct (map fst (keyToNode s))" by (simp add: coupled_def)
  ultimately have "(key (snd c), fst c) = (key (snd c'), fst c')"
    using k by (rule_tac distinct_fst_unique) simp_all
  then show "fst c = fst c'" by simp
qed

lemma coupled_distinct_keys:
  assumes "coupled s"
  shows "distinct (keys_of s)"
proof -
  from assms have dq: "distinct (map fst (priorityQ s))" by (simp add: coupled_def)
  then have "distinct (priorityQ s)" by (simp add: distinct_map)
  moreover have "inj_on (\<lambda>c. key (snd c)) (set (priorityQ s))"
  proof (rule inj_onI)
    fix c c' assume cc: "c \<in> set (priorityQ s)" "c' \<in> set (priorityQ s)" "key (snd c) = key (snd c')"
    then have "fst c = fst c'" using coupled_key_handle [OF assms] by blast
    with dq cc show "c = c'" by (rule_tac distinct_fst_unique)
  qed
  ultimately show ?thesis by (simp add: keys_of_def distinct_map)
qed

lemma coupled_filter_handle:
  assumes "coupled s" "(h, n) \<in> set (priorityQ s)"
  shows "filter (\<lambda>c. fst c \<noteq> h) (priorityQ s) = filter (\<lambda>c. key (snd c) \<noteq> key n) (priorityQ s)"
proof (rule filter_cong [OF refl])
  fix c assume "c \<in> set (priorityQ s)"
  from coupled_key_handle [OF assms(1) this assms(2)]
  show "(fst c \<noteq> h) = (key (snd c) \<noteq> key n)" by simp
qed

lemma coupled_cached:
  assumes "coupled s"
  shows "cached s k = map_of (contents s) k"
proof (cases "umap_find k (keyToNode s)")
  case None
  then have "k \<notin> fst ` set (keyToNode s)" by (simp add: umap_find_None)
  then have "k \<notin> set (keys_of s)" by (simp add: coupled_keys_index [OF assms])
  then have "map_of (contents s) k = None"
    by (simp add: map_of_eq_None_iff keys_of_contents)
  with None show ?thesis by (simp add: cached_def)
next
  case (Some e)
  from coupled_index_node [OF assms Some] obtain n where
    n: "map_of (priorityQ s) (snd e) = Some n" "key n = k" by blast
  then have "(snd e, n) \<in> set (priorityQ s)" by (simp add: map_of_SomeD)
  then have "(k, val n) \<in> set (contents s)" using n(2) by (force simp: contents_def)
  moreover have "distinct (map fst (contents s))"
    using coupled_distinct_keys [OF assms] by (simp add: keys_of_contents)
  ultimately have "map_of (contents s) k = Some (val n)" by (simp add: map_of_is_SomeI)
  with Some n show ?thesis by (simp add: cached_def)
qed

lemma coupled_size: "coupled s \<Longrightarrow> umap_size (keyToNode s) = length (contents s)"
  by (simp add: umap_size_def contents_def coupled_length)

subsection \<open>The calls on the list view\<close>

lemma contents_touch:
  assumes "coupled s" "(h, n) \<in> set (priorityQ s)"
  shows "map (\<lambda>c. (key (snd c), val (snd c))) (filter (\<lambda>c. fst c \<noteq> h) (priorityQ s)) =
         filter (\<lambda>e. fst e \<noteq> key n) (contents s)"
  by (simp add: coupled_filter_handle [OF assms] contents_def filter_map comp_def)

lemma present_iff:
  assumes "coupled s"
  shows "umap_find k (keyToNode s) = None \<longleftrightarrow> k \<notin> set (keys_of s)"
  using coupled_keys_index [OF assms] by (simp add: umap_find_None)

lemma abs_get_hit:
  assumes "coupled s" "cached s k = Some v"
  shows "\<exists>s'. get k s = Inr (v, s') \<and>
              contents s' = filter (\<lambda>e. fst e \<noteq> k) (contents s) @ [(k, v)] \<and>
              capacity s' = capacity s"
proof -
  from assms(2) obtain e where e: "umap_find k (keyToNode s) = Some e"
    by (auto simp: cached_def split: option.splits)
  from get_hit [OF assms(1) e] obtain n where
    n: "map_of (priorityQ s) (snd e) = Some n" "key n = k"
    and g: "get k s = Inr (val n,
                  s\<lparr>priorityQ := filter (\<lambda>c. fst c \<noteq> snd e) (priorityQ s) @
                                     [(next_node s, \<lparr>key = k, val = val n\<rparr>)],
                    keyToNode := filter (\<lambda>e'. fst e' \<noteq> k) (keyToNode s) @ [(k, next_node s)],
                    next_node := Suc (next_node s)\<rparr>)" by blast
  from e n assms(2) have v: "val n = v" by (simp add: cached_def)
  from n have "(snd e, n) \<in> set (priorityQ s)" by (simp add: map_of_SomeD)
  from contents_touch [OF assms(1) this] g v n(2) show ?thesis
    by (simp add: contents_def)
qed

lemma abs_put_hit:
  assumes "coupled s" "k \<in> set (keys_of s)"
  shows "\<exists>s'. put k v s = Inr s' \<and>
              contents s' = filter (\<lambda>e. fst e \<noteq> k) (contents s) @ [(k, v)] \<and>
              capacity s' = capacity s"
proof -
  from assms obtain e where e: "umap_find k (keyToNode s) = Some e"
    using present_iff [OF assms(1), of k] by (cases "umap_find k (keyToNode s)") simp_all
  from coupled_index_node [OF assms(1) e] obtain n where
    n: "map_of (priorityQ s) (snd e) = Some n" "key n = k" by blast
  from n have "(snd e, n) \<in> set (priorityQ s)" by (simp add: map_of_SomeD)
  from contents_touch [OF assms(1) this] put_hit [OF assms(1) e, of v] n(2) show ?thesis
    by (simp add: contents_def)
qed

lemma abs_put_new_room:
  assumes "coupled s" "k \<notin> set (keys_of s)"
    and "size_t_of_int (capacity s) \<noteq> length (contents s)"
  shows "\<exists>s'. put k v s = Inr s' \<and> contents s' = contents s @ [(k, v)] \<and>
              capacity s' = capacity s"
proof -
  from assms(1,2) have e: "umap_find k (keyToNode s) = None"
    by (simp add: present_iff [OF assms(1)])
  from assms(3) have "size_t_of_int (capacity s) \<noteq> umap_size (keyToNode s)"
    by (simp add: coupled_size [OF assms(1)])
  from put_new_room [OF e this, of v] show ?thesis by (simp add: contents_def)
qed

lemma abs_put_new_full:
  assumes "coupled s" "k \<notin> set (keys_of s)"
    and "size_t_of_int (capacity s) = length (contents s)"
    and "contents s \<noteq> []"
  shows "\<exists>s'. put k v s = Inr s' \<and> contents s' = tl (contents s) @ [(k, v)] \<and>
              capacity s' = capacity s"
proof -
  from assms(1,2) have e: "umap_find k (keyToNode s) = None"
    by (simp add: present_iff [OF assms(1)])
  from assms(3) have f: "size_t_of_int (capacity s) = umap_size (keyToNode s)"
    by (simp add: coupled_size [OF assms(1)])
  from assms(4) obtain c r where q: "priorityQ s = c # r"
    by (cases "priorityQ s") (simp_all add: contents_def)
  from put_new_full [OF assms(1) e f q, of v] q show ?thesis by (simp add: contents_def)
qed

lemma abs_put_new_full_empty:
  assumes "coupled s" "k \<notin> set (keys_of s)"
    and "size_t_of_int (capacity s) = length (contents s)"
    and "contents s = []"
  shows "put k v s = Inl FrontOfEmptyList"
proof -
  from assms(1,2) have e: "umap_find k (keyToNode s) = None"
    by (simp add: present_iff [OF assms(1)])
  from assms(3) have f: "size_t_of_int (capacity s) = umap_size (keyToNode s)"
    by (simp add: coupled_size [OF assms(1)])
  from assms(4) have "priorityQ s = []" by (simp add: contents_def)
  from put_new_full_empty [OF e f this] show ?thesis .
qed

lemma reachable_capacity: "reachable c s \<Longrightarrow> capacity s = c"
proof (induction rule: reachable.induct)
  case constructed
  show ?case by (simp add: new_LRUCache_def)
next
  case (after_get s k v s')
  then show ?case
    by (auto simp: get_def Let_def erase_both_def push_and_index_def
             split: option.splits sum.splits)
next
  case (after_put s k v s')
  then show ?case
    by (auto simp: put_def Let_def evict_def erase_both_def push_and_index_def
             simp del: not_None_eq split: option.splits sum.splits if_splits)
qed

subsection \<open>The capacity bound\<close>

lemma length_filter_present:
  "distinct (map fst xs) \<Longrightarrow> k \<in> fst ` set xs \<Longrightarrow>
     Suc (length (filter (\<lambda>e. fst e \<noteq> k) xs)) = length xs"
proof (induction xs)
  case Nil
  then show ?case by simp
next
  case (Cons x xs)
  show ?case
  proof (cases "fst x = k")
    case True
    with Cons.prems have "k \<notin> fst ` set xs" by auto
    with True show ?thesis by (simp add: filter_fst_neq_absent)
  next
    case False
    with Cons show ?thesis by auto
  qed
qed

lemma coupled_distinct_contents: "coupled s \<Longrightarrow> distinct (map fst (contents s))"
  using coupled_distinct_keys [of s] by (simp add: keys_of_contents)

lemma get_abs:
  assumes "coupled s"
  shows "\<exists>s'. get k s = Inr (case cached s k of None \<Rightarrow> - 1 | Some v \<Rightarrow> v, s') \<and>
              contents s' = (case cached s k of None \<Rightarrow> contents s
                             | Some v \<Rightarrow> filter (\<lambda>e. fst e \<noteq> k) (contents s) @ [(k, v)]) \<and>
              capacity s' = capacity s"
proof (cases "cached s k")
  case None
  then have "k \<notin> set (keys_of s)"
    by (simp add: coupled_cached [OF assms] map_of_eq_None_iff keys_of_contents)
  then have "umap_find k (keyToNode s) = None" by (simp add: present_iff [OF assms])
  with None show ?thesis by (simp add: get_miss)
next
  case (Some v)
  with abs_get_hit [OF assms Some] show ?thesis by simp
qed

lemma put_abs:
  assumes "coupled s" "1 \<le> sint (capacity s)"
    and "length (contents s) \<le> nat (sint (capacity s))"
  shows "\<exists>s'. put k v s = Inr s' \<and>
              contents s' =
                (if k \<in> set (keys_of s) then filter (\<lambda>e. fst e \<noteq> k) (contents s)
                 else if length (contents s) = nat (sint (capacity s)) then tl (contents s)
                 else contents s) @ [(k, v)] \<and>
              capacity s' = capacity s"
proof -
  from assms(2) have sz: "size_t_of_int (capacity s) = nat (sint (capacity s))"
    by (simp add: size_t_of_int_nonneg)
  show ?thesis
  proof (cases "k \<in> set (keys_of s)")
    case True
    with abs_put_hit [OF assms(1) True, of v] show ?thesis by simp
  next
    case False
    show ?thesis
    proof (cases "length (contents s) = nat (sint (capacity s))")
      case True
      with assms(2) have "contents s \<noteq> []" by auto
      with abs_put_new_full [OF assms(1) False, of v] True False sz show ?thesis by simp
    next
      case neq: False
      with abs_put_new_room [OF assms(1) False, of v] False sz show ?thesis by simp
    qed
  qed
qed

lemma reachable_bound:
  assumes "reachable c s" "1 \<le> sint c"
  shows "length (contents s) \<le> nat (sint c)"
  using assms
proof (induction rule: reachable.induct)
  case constructed
  show ?case by (simp add: new_LRUCache_def contents_def)
next
  case (after_get s k v s')
  have cp: "coupled s" by (rule reachable_coupled [OF after_get.hyps(1)])
  from get_abs [OF cp, of k] after_get.hyps(2) have
    c': "contents s' = (case cached s k of None \<Rightarrow> contents s
                             | Some v \<Rightarrow> filter (\<lambda>e. fst e \<noteq> k) (contents s) @ [(k, v)])"
    by auto
  show ?case
  proof (cases "cached s k")
    case None
    with c' after_get show ?thesis by simp
  next
    case (Some w)
    then have "k \<in> fst ` set (contents s)"
      using coupled_cached [OF cp, of k] by (metis map_of_eq_None_iff option.distinct(1))
    from length_filter_present [OF coupled_distinct_contents [OF cp] this] c' Some after_get
    show ?thesis by simp
  qed
next
  case (after_put s k v s')
  have cp: "coupled s" by (rule reachable_coupled [OF after_put.hyps(1)])
  have cap: "capacity s = c" by (rule reachable_capacity [OF after_put.hyps(1)])
  from after_put have le: "length (contents s) \<le> nat (sint c)" by simp
  from put_abs [OF cp, of k v] cap le after_put.prems after_put.hyps(2) have
    c': "contents s' =
                (if k \<in> set (keys_of s) then filter (\<lambda>e. fst e \<noteq> k) (contents s)
                 else if length (contents s) = nat (sint c) then tl (contents s)
                 else contents s) @ [(k, v)]" by auto
  show ?case
  proof (cases "k \<in> set (keys_of s)")
    case True
    then have "k \<in> fst ` set (contents s)" by (simp add: keys_of_contents)
    from length_filter_present [OF coupled_distinct_contents [OF cp] this] c' True le
    show ?thesis by simp
  next
    case False
    with c' le after_put.prems show ?thesis by auto
  qed
qed

subsection \<open>Runs of calls, and a concrete run\<close>

lemma step_reachable: "reachable c s \<Longrightarrow> step x s = Inr s' \<Longrightarrow> reachable c s'"
  by (cases x) (auto split: sum.splits intro: reachable.intros)

lemma run_reachable: "reachable c s \<Longrightarrow> run ops s = Inr s' \<Longrightarrow> reachable c s'"
proof (induction ops arbitrary: s)
  case Nil
  then show ?case by simp
next
  case (Cons x xs)
  then show ?case by (auto split: sum.splits dest: step_reachable)
qed

lemma example_two_puts:
  "run [Put 1 10, Put 2 20] (new_LRUCache 2) =
     Inr \<lparr>priorityQ = [(0, \<lparr>key = 1, val = 10\<rparr>), (1, \<lparr>key = 2, val = 20\<rparr>)],
          keyToNode = [(1, 0), (2, 1)], capacity = 2, next_node = 2\<rparr>"
  by (simp add: put_def Let_def push_and_index_def list_push_back_def list_prev_end_def
        umap_find_def umap_insert_def umap_size_def size_t_of_int_def new_LRUCache_def)

lemma example_two_puts_reachable:
  "reachable 2 \<lparr>priorityQ = [(0, \<lparr>key = 1, val = 10\<rparr>), (1, \<lparr>key = 2, val = 20\<rparr>)],
          keyToNode = [(1, 0), (2, 1)], capacity = 2, next_node = 2\<rparr>"
  by (rule run_reachable [OF constructed example_two_puts])

lemma map_of_snoc_last:
  assumes "distinct (map fst ys)" "ys = xs @ [(k, v)]"
  shows "map_of ys k = Some v"
  using assms(1) unfolding assms(2) by (rule map_of_is_SomeI) simp

lemma example_cached_1:
  "cached \<lparr>priorityQ = [(0, \<lparr>key = 1, val = 10\<rparr>), (1, \<lparr>key = 2, val = 20\<rparr>)],
          keyToNode = [(1, 0), (2, 1)], capacity = 2, next_node = 2\<rparr> 1 = Some 10"
  by (simp add: cached_def umap_find_def)

lemma example_absent_3:
  "umap_find 3 (keyToNode \<lparr>priorityQ = [(0, \<lparr>key = 1, val = 10\<rparr>), (1, \<lparr>key = 2, val = 20\<rparr>)],
          keyToNode = [(1, 0), (2, 1)], capacity = 2, next_node = 2\<rparr>) = None"
  by (simp add: umap_find_def)

lemma example_present_1:
  "umap_find 1 (keyToNode \<lparr>priorityQ = [(0, \<lparr>key = 1, val = 10\<rparr>), (1, \<lparr>key = 2, val = 20\<rparr>)],
          keyToNode = [(1, 0), (2, 1)], capacity = 2, next_node = 2\<rparr>) \<noteq> None"
  by (simp add: umap_find_def)

lemma example_full:
  "size_t_of_int (capacity \<lparr>priorityQ = [(0, \<lparr>key = 1, val = 10\<rparr>), (1, \<lparr>key = 2, val = 20\<rparr>)],
          keyToNode = [(1, 0), (2, 1)], capacity = 2, next_node = 2\<rparr>) =
   umap_size (keyToNode \<lparr>priorityQ = [(0, \<lparr>key = 1, val = 10\<rparr>), (1, \<lparr>key = 2, val = 20\<rparr>)],
          keyToNode = [(1, 0), (2, 1)], capacity = 2, next_node = 2\<rparr>)"
  by (simp add: size_t_of_int_def umap_size_def)

lemma two_positive: "1 \<le> sint (2 :: c_int)"
  by simp

text \<open>With a positive capacity every call returns.\<close>

lemma step_returns:
  assumes "reachable c s" "1 \<le> sint c"
  shows "\<exists>s'. step x s = Inr s'"
proof (cases x)
  case (Get k)
  from get_abs [OF reachable_coupled [OF assms(1)], of k] Get show ?thesis by auto
next
  case (Put k v)
  from put_abs [OF reachable_coupled [OF assms(1)], of k v] assms(2)
    reachable_bound [OF assms] reachable_capacity [OF assms(1)] Put
  show ?thesis by auto
qed

lemma run_returns:
  assumes "reachable c s" "1 \<le> sint c"
  shows "\<exists>s'. run ops s = Inr s'"
  using assms(1)
proof (induction ops arbitrary: s)
  case Nil
  show ?case by simp
next
  case (Cons x xs)
  from step_returns [OF Cons.prems assms(2), of x] obtain s1 where st: "step x s = Inr s1" ..
  from Cons.IH [OF step_reachable [OF Cons.prems st]] st show ?case by simp
qed

text \<open>
  The run of \<open>test_lru\<close> in the source: capacity 2, and each of its four checks sees
  the value it expects (10; a miss for key 2; a miss for key 3; 44).
\<close>

lemma test_lru_passes:
  "\<exists>s2 s3 s4 s5 s6 s7 s8.
     run [Put 1 10, Put 2 20] (new_LRUCache 2) = Inr s2 \<and>
     get 1 s2 = Inr (10, s3) \<and>
     put 3 30 s3 = Inr s4 \<and>
     get 2 s4 = Inr (- 1, s4) \<and>
     get 1 s4 = Inr (10, s5) \<and>
     put 4 40 s5 = Inr s6 \<and>
     get 3 s6 = Inr (- 1, s6) \<and>
     put 4 44 s6 = Inr s7 \<and>
     get 4 s7 = Inr (44, s8)"
  by (simp add: put_def get_def Let_def evict_def erase_both_def push_and_index_def
        list_deref_def list_erase_def list_front_def list_pop_front_def
        list_push_back_def list_prev_end_def umap_find_def umap_erase_def umap_insert_def
        umap_size_def size_t_of_int_def new_LRUCache_def del: not_None_eq)

section \<open>The claims\<close>

text \<open>
  C6. For every cache and every key that is not in the index, \<open>get\<close> returns the miss
  value \<open>-1\<close> as an ordinary result, never an error, and the returned cache is the
  one it was given: no entry, no position in the recency list and no size has changed.
\<close>

theorem get_absent_is_miss:
  "umap_find k (keyToNode s) = None \<Longrightarrow> get k s = Inr (- 1, s)"
  by (simp add: get_def)

theorem get_absent_is_miss_witness:
  "umap_find 3 (keyToNode \<lparr>priorityQ = [(0, \<lparr>key = 1, val = 10\<rparr>), (1, \<lparr>key = 2, val = 20\<rparr>)],
          keyToNode = [(1, 0), (2, 1)], capacity = 2, next_node = 2\<rparr>) = None \<and>
   get 3 \<lparr>priorityQ = [(0, \<lparr>key = 1, val = 10\<rparr>), (1, \<lparr>key = 2, val = 20\<rparr>)],
          keyToNode = [(1, 0), (2, 1)], capacity = 2, next_node = 2\<rparr> =
   Inr (- 1, \<lparr>priorityQ = [(0, \<lparr>key = 1, val = 10\<rparr>), (1, \<lparr>key = 2, val = 20\<rparr>)],
          keyToNode = [(1, 0), (2, 1)], capacity = 2, next_node = 2\<rparr>)"
proof -
  have h: "umap_find 3 (keyToNode \<lparr>priorityQ = [(0, \<lparr>key = 1, val = 10\<rparr>), (1, \<lparr>key = 2, val = 20\<rparr>)],
          keyToNode = [(1, 0), (2, 1)], capacity = 2, next_node = 2\<rparr>) = None"
    by (simp add: umap_find_def)
  from h get_absent_is_miss [OF h] show ?thesis by (rule conjI)
qed

text \<open>
  C2. For a cache constructed with a positive capacity: in every state it reaches by
  calls of \<open>put\<close> and \<open>get\<close> the number of index entries, and the number of list
  nodes, is at most the capacity; and every sequence of calls on the new cache returns
  after each call, in such a state.
\<close>

theorem capacity_invariant:
  assumes "1 \<le> sint c"
  shows "(reachable c s \<longrightarrow>
            int (umap_size (keyToNode s)) \<le> sint c \<and> int (length (priorityQ s)) \<le> sint c) \<and>
         (\<forall>i. \<exists>s'. run (take i ops) (new_LRUCache c) = Inr s' \<and>
            int (umap_size (keyToNode s')) \<le> sint c \<and> int (length (priorityQ s')) \<le> sint c)"
proof -
  have bound: "int (umap_size (keyToNode s)) \<le> sint c \<and> int (length (priorityQ s)) \<le> sint c"
    if r: "reachable c s" for s
  proof -
    have cp: "coupled s" by (rule reachable_coupled [OF r])
    from reachable_bound [OF r assms] have "length (contents s) \<le> nat (sint c)" .
    with assms show ?thesis
      by (simp add: coupled_size [OF cp] contents_def)
  qed
  have "\<exists>s'. run (take i ops) (new_LRUCache c) = Inr s' \<and>
            int (umap_size (keyToNode s')) \<le> sint c \<and> int (length (priorityQ s')) \<le> sint c"
    for i
  proof -
    from run_returns [OF constructed assms, of "take i ops"] obtain s' where
      run: "run (take i ops) (new_LRUCache c) = Inr s'" ..
    from bound [OF run_reachable [OF constructed run]] run show ?thesis by blast
  qed
  with bound show ?thesis by blast
qed

theorem capacity_invariant_witness:
  "1 \<le> sint (2 :: c_int) \<and>
   reachable 2 \<lparr>priorityQ = [(0, \<lparr>key = 1, val = 10\<rparr>), (1, \<lparr>key = 2, val = 20\<rparr>)],
          keyToNode = [(1, 0), (2, 1)], capacity = 2, next_node = 2\<rparr> \<and>
   run (take 2 [Put 1 10, Put 2 20, Put 3 30]) (new_LRUCache 2) =
     Inr \<lparr>priorityQ = [(0, \<lparr>key = 1, val = 10\<rparr>), (1, \<lparr>key = 2, val = 20\<rparr>)],
          keyToNode = [(1, 0), (2, 1)], capacity = 2, next_node = 2\<rparr> \<and>
   int (umap_size [(1 :: c_int, 0 :: handle), (2, 1)]) \<le> sint (2 :: c_int) \<and>
   int (length [(0 :: handle, \<lparr>key = 1, val = 10\<rparr>), (1, \<lparr>key = 2, val = 20\<rparr>)]) \<le> sint (2 :: c_int)"
proof -
  let ?s2 = "\<lparr>priorityQ = [(0, \<lparr>key = 1, val = 10\<rparr>), (1, \<lparr>key = 2, val = 20\<rparr>)],
          keyToNode = [(1, 0), (2, 1)], capacity = 2, next_node = 2\<rparr>"
  have t: "take 2 [Put 1 10, Put 2 20, Put 3 30] = [Put 1 10, Put 2 20]" by simp
  from capacity_invariant [OF two_positive, of ?s2] example_two_puts_reachable
  have "int (umap_size (keyToNode ?s2)) \<le> sint (2 :: c_int) \<and>
        int (length (priorityQ ?s2)) \<le> sint (2 :: c_int)" by blast
  with two_positive example_two_puts_reachable example_two_puts t show ?thesis by simp
qed

text \<open>
  C7. In every state reached after construction and any calls of \<open>get\<close> and
  \<open>put\<close>, the index has as many entries as the recency list has nodes, and every
  entry of the index is the one found for its key and holds a valid iterator to a
  node whose key is that key.
\<close>

theorem index_list_coupling:
  assumes "reachable c s"
  shows "umap_size (keyToNode s) = length (priorityQ s) \<and>
         (\<forall>e \<in> set (keyToNode s).
            umap_find (fst e) (keyToNode s) = Some e \<and>
            (\<exists>n. list_deref (snd e) (priorityQ s) = Inr n \<and> key n = fst e))"
proof -
  have cp: "coupled s" by (rule reachable_coupled [OF assms])
  have "umap_size (keyToNode s) = length (priorityQ s)"
    by (simp add: umap_size_def coupled_length [OF cp])
  moreover have "umap_find (fst e) (keyToNode s) = Some e \<and>
            (\<exists>n. list_deref (snd e) (priorityQ s) = Inr n \<and> key n = fst e)"
    if "e \<in> set (keyToNode s)" for e
  proof -
    from cp have "distinct (map fst (keyToNode s))" by (simp add: coupled_def)
    with that have "map_of (keyToNode s) (fst e) = Some (snd e)" by (simp add: map_of_is_SomeI)
    then have f: "umap_find (fst e) (keyToNode s) = Some e" by (simp add: umap_find_def)
    from coupled_index_node [OF cp f] f show ?thesis by (auto simp: list_deref_def)
  qed
  ultimately show ?thesis by blast
qed

theorem index_list_coupling_witness:
  "reachable 2 \<lparr>priorityQ = [(0, \<lparr>key = 1, val = 10\<rparr>), (1, \<lparr>key = 2, val = 20\<rparr>)],
          keyToNode = [(1, 0), (2, 1)], capacity = 2, next_node = 2\<rparr> \<and>
   umap_size [(1 :: c_int, 0 :: handle), (2, 1)] =
     length [(0 :: handle, \<lparr>key = 1, val = 10\<rparr>), (1, \<lparr>key = 2, val = 20\<rparr>)] \<and>
   umap_find 1 [(1, 0), (2, 1)] = Some (1, 0) \<and>
   list_deref 0 [(0, \<lparr>key = 1, val = 10\<rparr>), (1, \<lparr>key = 2, val = 20\<rparr>)] =
     Inr \<lparr>key = 1, val = 10\<rparr> \<and>
   umap_find 2 [(1, 0), (2, 1)] = Some (2, 1) \<and>
   list_deref 1 [(0, \<lparr>key = 1, val = 10\<rparr>), (1, \<lparr>key = 2, val = 20\<rparr>)] =
     Inr \<lparr>key = 2, val = 20\<rparr>"
  using index_list_coupling [OF example_two_puts_reachable] example_two_puts_reachable
  by (simp add: umap_size_def umap_find_def list_deref_def)

text \<open>
  C3. For a cache constructed with a positive capacity, in any state it reaches, and for
  every key \<open>k\<close> and value \<open>v\<close>: \<open>put k v\<close> returns; afterwards the cache maps
  \<open>k\<close> to \<open>v\<close>, \<open>k\<close> is the last (most recently used) key of the recency list,
  and \<open>get k\<close> returns \<open>v\<close>.
\<close>

theorem put_then_get:
  assumes "reachable c s" "1 \<le> sint c"
  shows "\<exists>s'. put k v s = Inr s' \<and> cached s' k = Some v \<and>
              keys_of s' \<noteq> [] \<and> last (keys_of s') = k \<and>
              (\<exists>s''. get k s' = Inr (v, s''))"
proof -
  have cp: "coupled s" by (rule reachable_coupled [OF assms(1)])
  have cap: "capacity s = c" by (rule reachable_capacity [OF assms(1)])
  from put_abs [OF cp, of k v] assms(2) reachable_bound [OF assms] cap
  obtain s' xs where p: "put k v s = Inr s'" and c': "contents s' = xs @ [(k, v)]"
    by auto
  have cp': "coupled s'" by (rule coupled_put [OF cp p])
  from coupled_distinct_contents [OF cp'] c' have "map_of (contents s') k = Some v"
    by (rule map_of_snoc_last)
  then have cached: "cached s' k = Some v" by (simp add: coupled_cached [OF cp'])
  from get_abs [OF cp', of k] cached obtain s'' where "get k s' = Inr (v, s'')" by auto
  with p cached c' show ?thesis by (auto simp: keys_of_contents)
qed

theorem put_then_get_witness:
  "reachable 2 \<lparr>priorityQ = [(0, \<lparr>key = 1, val = 10\<rparr>), (1, \<lparr>key = 2, val = 20\<rparr>)],
          keyToNode = [(1, 0), (2, 1)], capacity = 2, next_node = 2\<rparr> \<and>
   1 \<le> sint (2 :: c_int) \<and>
   (\<exists>s'. put 3 30 \<lparr>priorityQ = [(0, \<lparr>key = 1, val = 10\<rparr>), (1, \<lparr>key = 2, val = 20\<rparr>)],
          keyToNode = [(1, 0), (2, 1)], capacity = 2, next_node = 2\<rparr> = Inr s' \<and>
         cached s' 3 = Some 30 \<and> keys_of s' \<noteq> [] \<and> last (keys_of s') = 3 \<and>
         (\<exists>s''. get 3 s' = Inr (30, s'')))"
  using example_two_puts_reachable two_positive
    put_then_get [OF example_two_puts_reachable two_positive, of 3 30]
  by (intro conjI)

text \<open>
  C4. For every reachable cache state and every key \<open>k\<close> cached with value \<open>v\<close>:
  \<open>get k\<close> returns \<open>v\<close>; afterwards \<open>k\<close> is the most recently used entry, the
  other entries keep their order, the set of cached (key, value) pairs is the same
  (nothing is evicted), and the index and the list have the sizes they had.
\<close>

theorem get_present:
  assumes "reachable c s" "cached s k = Some v"
  shows "\<exists>s'. get k s = Inr (v, s') \<and>
              contents s' = filter (\<lambda>e. fst e \<noteq> k) (contents s) @ [(k, v)] \<and>
              last (keys_of s') = k \<and>
              set (contents s') = set (contents s) \<and>
              umap_size (keyToNode s') = umap_size (keyToNode s) \<and>
              length (priorityQ s') = length (priorityQ s)"
proof -
  have cp: "coupled s" by (rule reachable_coupled [OF assms(1)])
  from abs_get_hit [OF cp assms(2)] obtain s' where
    g: "get k s = Inr (v, s')"
    and c': "contents s' = filter (\<lambda>e. fst e \<noteq> k) (contents s) @ [(k, v)]" by blast
  have cp': "coupled s'" by (rule coupled_get [OF cp g])
  from assms(2) have m: "map_of (contents s) k = Some v" by (simp add: coupled_cached [OF cp])
  then have kv: "(k, v) \<in> set (contents s)" by (rule map_of_SomeD)
  have only: "e = (k, v)" if "e \<in> set (contents s)" "fst e = k" for e
    using distinct_fst_unique [OF coupled_distinct_contents [OF cp] that(1) kv] that(2) by simp
  have sets: "set (contents s') = set (contents s)"
  proof (intro set_eqI iffI)
    fix e assume "e \<in> set (contents s')"
    then have "e = (k, v) \<or> e \<in> set (contents s)" by (auto simp: c')
    with kv show "e \<in> set (contents s)" by blast
  next
    fix e assume e: "e \<in> set (contents s)"
    show "e \<in> set (contents s')"
    proof (cases "fst e = k")
      case True
      with only [OF e] show ?thesis by (simp add: c')
    next
      case False
      with e show ?thesis by (simp add: c')
    qed
  qed
  from kv have "k \<in> fst ` set (contents s)" by force
  from length_filter_present [OF coupled_distinct_contents [OF cp] this] c'
  have len: "length (contents s') = length (contents s)" by simp
  then have "umap_size (keyToNode s') = umap_size (keyToNode s)"
    by (simp add: coupled_size [OF cp] coupled_size [OF cp'])
  moreover from len have "length (priorityQ s') = length (priorityQ s)"
    by (simp add: contents_def)
  ultimately show ?thesis using g c' sets by (simp add: keys_of_contents)
qed

theorem get_present_witness:
  "reachable 2 \<lparr>priorityQ = [(0, \<lparr>key = 1, val = 10\<rparr>), (1, \<lparr>key = 2, val = 20\<rparr>)],
          keyToNode = [(1, 0), (2, 1)], capacity = 2, next_node = 2\<rparr> \<and>
   cached \<lparr>priorityQ = [(0, \<lparr>key = 1, val = 10\<rparr>), (1, \<lparr>key = 2, val = 20\<rparr>)],
          keyToNode = [(1, 0), (2, 1)], capacity = 2, next_node = 2\<rparr> 1 = Some 10 \<and>
   get 1 \<lparr>priorityQ = [(0, \<lparr>key = 1, val = 10\<rparr>), (1, \<lparr>key = 2, val = 20\<rparr>)],
          keyToNode = [(1, 0), (2, 1)], capacity = 2, next_node = 2\<rparr> =
     Inr (10, \<lparr>priorityQ = [(1, \<lparr>key = 2, val = 20\<rparr>), (2, \<lparr>key = 1, val = 10\<rparr>)],
          keyToNode = [(2, 1), (1, 2)], capacity = 2, next_node = 3\<rparr>) \<and>
   contents \<lparr>priorityQ = [(1, \<lparr>key = 2, val = 20\<rparr>), (2, \<lparr>key = 1, val = 10\<rparr>)],
          keyToNode = [(2, 1), (1, 2)], capacity = 2, next_node = 3\<rparr> = [(2, 20), (1, 10)]"
proof -
  from get_present [OF example_two_puts_reachable example_cached_1] obtain s' where
    "get 1 \<lparr>priorityQ = [(0, \<lparr>key = 1, val = 10\<rparr>), (1, \<lparr>key = 2, val = 20\<rparr>)],
          keyToNode = [(1, 0), (2, 1)], capacity = 2, next_node = 2\<rparr> = Inr (10, s')" by blast
  moreover have "get 1 \<lparr>priorityQ = [(0, \<lparr>key = 1, val = 10\<rparr>), (1, \<lparr>key = 2, val = 20\<rparr>)],
          keyToNode = [(1, 0), (2, 1)], capacity = 2, next_node = 2\<rparr> =
     Inr (10, \<lparr>priorityQ = [(1, \<lparr>key = 2, val = 20\<rparr>), (2, \<lparr>key = 1, val = 10\<rparr>)],
          keyToNode = [(2, 1), (1, 2)], capacity = 2, next_node = 3\<rparr>)"
    by (simp add: get_def Let_def erase_both_def push_and_index_def list_deref_def
          list_erase_def list_push_back_def list_prev_end_def umap_find_def umap_erase_def
          umap_insert_def)
  ultimately show ?thesis
    using example_two_puts_reachable example_cached_1 by (simp add: contents_def)
qed

text \<open>
  C5. For every reachable cache state and every key \<open>k\<close> already in the index:
  \<open>put k v2\<close> returns; afterwards \<open>k\<close> maps to \<open>v2\<close> and is the most recently
  used entry, every other entry is kept with its value and its order, the set of cached
  keys is the same (no eviction), and the sizes of index and list are unchanged.
\<close>

theorem put_present:
  assumes "reachable c s" "umap_find k (keyToNode s) \<noteq> None"
  shows "\<exists>s'. put k v2 s = Inr s' \<and>
              contents s' = filter (\<lambda>e. fst e \<noteq> k) (contents s) @ [(k, v2)] \<and>
              cached s' k = Some v2 \<and>
              set (keys_of s') = set (keys_of s) \<and>
              umap_size (keyToNode s') = umap_size (keyToNode s) \<and>
              length (priorityQ s') = length (priorityQ s)"
proof -
  have cp: "coupled s" by (rule reachable_coupled [OF assms(1)])
  from assms(2) have present: "k \<in> set (keys_of s)"
    using present_iff [OF cp, of k] by (simp del: not_None_eq)
  from abs_put_hit [OF cp present, of v2] obtain s' where
    p: "put k v2 s = Inr s'"
    and c': "contents s' = filter (\<lambda>e. fst e \<noteq> k) (contents s) @ [(k, v2)]" by blast
  have cp': "coupled s'" by (rule coupled_put [OF cp p])
  from coupled_distinct_contents [OF cp'] c' have "map_of (contents s') k = Some v2"
    by (rule map_of_snoc_last)
  then have cached: "cached s' k = Some v2" by (simp add: coupled_cached [OF cp'])
  have "fst ` set (contents s') = insert k (fst ` {e \<in> set (contents s). fst e \<noteq> k})"
    by (simp add: c')
  also have "\<dots> = fst ` set (contents s)"
    using present by (force simp: keys_of_contents)
  finally have keys: "set (keys_of s') = set (keys_of s)"
    by (simp add: keys_of_contents)
  from present have "k \<in> fst ` set (contents s)" by (simp add: keys_of_contents)
  from length_filter_present [OF coupled_distinct_contents [OF cp] this] c'
  have len: "length (contents s') = length (contents s)" by simp
  then have "umap_size (keyToNode s') = umap_size (keyToNode s)"
    by (simp add: coupled_size [OF cp] coupled_size [OF cp'])
  moreover from len have "length (priorityQ s') = length (priorityQ s)"
    by (simp add: contents_def)
  ultimately show ?thesis using p c' cached keys by simp
qed

theorem put_present_witness:
  "reachable 2 \<lparr>priorityQ = [(0, \<lparr>key = 1, val = 10\<rparr>), (1, \<lparr>key = 2, val = 20\<rparr>)],
          keyToNode = [(1, 0), (2, 1)], capacity = 2, next_node = 2\<rparr> \<and>
   umap_find 1 (keyToNode \<lparr>priorityQ = [(0, \<lparr>key = 1, val = 10\<rparr>), (1, \<lparr>key = 2, val = 20\<rparr>)],
          keyToNode = [(1, 0), (2, 1)], capacity = 2, next_node = 2\<rparr>) \<noteq> None \<and>
   put 1 11 \<lparr>priorityQ = [(0, \<lparr>key = 1, val = 10\<rparr>), (1, \<lparr>key = 2, val = 20\<rparr>)],
          keyToNode = [(1, 0), (2, 1)], capacity = 2, next_node = 2\<rparr> =
     Inr \<lparr>priorityQ = [(1, \<lparr>key = 2, val = 20\<rparr>), (2, \<lparr>key = 1, val = 11\<rparr>)],
          keyToNode = [(2, 1), (1, 2)], capacity = 2, next_node = 3\<rparr> \<and>
   contents \<lparr>priorityQ = [(1, \<lparr>key = 2, val = 20\<rparr>), (2, \<lparr>key = 1, val = 11\<rparr>)],
          keyToNode = [(2, 1), (1, 2)], capacity = 2, next_node = 3\<rparr> = [(2, 20), (1, 11)]"
proof -
  from put_present [OF example_two_puts_reachable example_present_1, of 11] obtain s' where
    "put 1 11 \<lparr>priorityQ = [(0, \<lparr>key = 1, val = 10\<rparr>), (1, \<lparr>key = 2, val = 20\<rparr>)],
          keyToNode = [(1, 0), (2, 1)], capacity = 2, next_node = 2\<rparr> = Inr s'" by blast
  moreover have "put 1 11 \<lparr>priorityQ = [(0, \<lparr>key = 1, val = 10\<rparr>), (1, \<lparr>key = 2, val = 20\<rparr>)],
          keyToNode = [(1, 0), (2, 1)], capacity = 2, next_node = 2\<rparr> =
     Inr \<lparr>priorityQ = [(1, \<lparr>key = 2, val = 20\<rparr>), (2, \<lparr>key = 1, val = 11\<rparr>)],
          keyToNode = [(2, 1), (1, 2)], capacity = 2, next_node = 3\<rparr>"
    by (simp add: put_def Let_def erase_both_def push_and_index_def
          list_erase_def list_push_back_def list_prev_end_def umap_find_def umap_erase_def
          umap_insert_def umap_size_def size_t_of_int_def del: not_None_eq)
  ultimately show ?thesis
    using example_two_puts_reachable example_present_1 by (simp add: contents_def)
qed

subsection \<open>Capacities that are not positive\<close>

lemma put_empty_capacity_0: "put k v (new_LRUCache 0) = Inl FrontOfEmptyList"
  by (simp add: put_def Let_def evict_def list_front_def umap_find_def umap_size_def
        size_t_of_int_def new_LRUCache_def)

lemma size_t_of_int_negative:
  assumes "sint c < 0"
  shows "size_t_of_int c \<noteq> 0"
proof
  assume "size_t_of_int c = 0"
  then have "(scast c :: 64 word) = 0" by (simp add: size_t_of_int_def unat_eq_0)
  then have "sint (scast c :: 64 word) = 0" by simp
  moreover have "sint (scast c :: 64 word) = sint c"
    by (rule sint_up_scast) (simp add: is_up)
  ultimately show False using assms by simp
qed

text \<open>
  C9. \<open>get\<close> reports a miss by the value \<open>-1\<close>, which can also be stored: in every
  reachable state of a cache with positive capacity, \<open>put k (-1)\<close> returns and caches
  \<open>-1\<close> for \<open>k\<close>, the following \<open>get k\<close> returns \<open>-1\<close>, and \<open>get\<close> of any
  key absent from the index returns the same \<open>-1\<close>.
\<close>

theorem miss_sentinel_collision:
  assumes "reachable c s" "1 \<le> sint c"
  shows "\<exists>s'. put k (- 1) s = Inr s' \<and> cached s' k = Some (- 1) \<and>
              (\<exists>s''. get k s' = Inr (- 1, s'')) \<and>
              (\<forall>j. umap_find j (keyToNode s') = None \<longrightarrow> get j s' = Inr (- 1, s'))"
proof -
  have cp: "coupled s" by (rule reachable_coupled [OF assms(1)])
  have cap: "capacity s = c" by (rule reachable_capacity [OF assms(1)])
  from put_abs [OF cp, of k "- 1"] assms(2) reachable_bound [OF assms] cap
  obtain s' xs where p: "put k (- 1) s = Inr s'" and c': "contents s' = xs @ [(k, - 1)]"
    by auto
  have cp': "coupled s'" by (rule coupled_put [OF cp p])
  from coupled_distinct_contents [OF cp'] c' have "map_of (contents s') k = Some (- 1)"
    by (rule map_of_snoc_last)
  then have cached: "cached s' k = Some (- 1)" by (simp add: coupled_cached [OF cp'])
  from get_abs [OF cp', of k] cached obtain s'' where "get k s' = Inr (- 1, s'')" by auto
  with p cached show ?thesis by (auto simp: get_miss)
qed

theorem miss_sentinel_collision_witness:
  "reachable 2 \<lparr>priorityQ = [(0, \<lparr>key = 1, val = 10\<rparr>), (1, \<lparr>key = 2, val = 20\<rparr>)],
          keyToNode = [(1, 0), (2, 1)], capacity = 2, next_node = 2\<rparr> \<and>
   1 \<le> sint (2 :: c_int) \<and>
   (\<exists>s'. put 1 (- 1) \<lparr>priorityQ = [(0, \<lparr>key = 1, val = 10\<rparr>), (1, \<lparr>key = 2, val = 20\<rparr>)],
          keyToNode = [(1, 0), (2, 1)], capacity = 2, next_node = 2\<rparr> = Inr s' \<and>
         cached s' 1 = Some (- 1) \<and>
         (\<exists>s''. get 1 s' = Inr (- 1, s'')) \<and>
         (\<forall>j. umap_find j (keyToNode s') = None \<longrightarrow> get j s' = Inr (- 1, s')))"
  using example_two_puts_reachable two_positive
    miss_sentinel_collision [OF example_two_puts_reachable two_positive, of 1]
  by (intro conjI)

text \<open>
  C10. In every reachable state of a cache with capacity at least 1, when \<open>put\<close> takes
  the eviction branch (the key is not in the index and the index size equals the
  capacity) the recency list is not empty: \<open>front()\<close> and \<open>pop_front()\<close> are
  defined, the branch and the whole \<open>put\<close> return. With capacity 0 the branch is taken
  on the empty list, and reading its front is the error.
\<close>

theorem eviction_branch_safe:
  assumes "reachable c s" "1 \<le> sint c"
    and "umap_find k (keyToNode s) = None"
    and "size_t_of_int (capacity s) = umap_size (keyToNode s)"
  shows "priorityQ s \<noteq> [] \<and>
         (\<exists>n. list_front (priorityQ s) = Inr n) \<and>
         (\<exists>q. list_pop_front (priorityQ s) = Inr q) \<and>
         (\<exists>s1. evict s = Inr s1) \<and>
         (\<exists>s'. put k v s = Inr s') \<and>
         evict (new_LRUCache 0) = Inl FrontOfEmptyList \<and>
         put k v (new_LRUCache 0) = Inl FrontOfEmptyList"
proof -
  have cp: "coupled s" by (rule reachable_coupled [OF assms(1)])
  have cap: "capacity s = c" by (rule reachable_capacity [OF assms(1)])
  from assms(2) have "size_t_of_int c = nat (sint c)" by (simp add: size_t_of_int_nonneg)
  with assms(2,4) cap have "1 \<le> umap_size (keyToNode s)" by simp
  then have "1 \<le> length (priorityQ s)" by (simp add: umap_size_def coupled_length [OF cp])
  then obtain x r where q: "priorityQ s = x # r" by (cases "priorityQ s") simp_all
  from put_abs [OF cp, of k v] assms(2) reachable_bound [OF assms(1,2)] cap
  obtain s' where "put k v s = Inr s'" by auto
  moreover have "evict (new_LRUCache 0) = Inl FrontOfEmptyList"
    by (simp add: evict_def list_front_def new_LRUCache_def)
  ultimately show ?thesis
    using q evict_front [OF cp q]
    by (simp add: list_front_def list_pop_front_def put_empty_capacity_0)
qed

theorem eviction_branch_safe_witness:
  "reachable 2 \<lparr>priorityQ = [(0, \<lparr>key = 1, val = 10\<rparr>), (1, \<lparr>key = 2, val = 20\<rparr>)],
          keyToNode = [(1, 0), (2, 1)], capacity = 2, next_node = 2\<rparr> \<and>
   1 \<le> sint (2 :: c_int) \<and>
   umap_find 3 (keyToNode \<lparr>priorityQ = [(0, \<lparr>key = 1, val = 10\<rparr>), (1, \<lparr>key = 2, val = 20\<rparr>)],
          keyToNode = [(1, 0), (2, 1)], capacity = 2, next_node = 2\<rparr>) = None \<and>
   size_t_of_int (capacity \<lparr>priorityQ = [(0, \<lparr>key = 1, val = 10\<rparr>), (1, \<lparr>key = 2, val = 20\<rparr>)],
          keyToNode = [(1, 0), (2, 1)], capacity = 2, next_node = 2\<rparr>) =
   umap_size (keyToNode \<lparr>priorityQ = [(0, \<lparr>key = 1, val = 10\<rparr>), (1, \<lparr>key = 2, val = 20\<rparr>)],
          keyToNode = [(1, 0), (2, 1)], capacity = 2, next_node = 2\<rparr>) \<and>
   priorityQ \<lparr>priorityQ = [(0, \<lparr>key = 1, val = 10\<rparr>), (1, \<lparr>key = 2, val = 20\<rparr>)],
          keyToNode = [(1, 0), (2, 1)], capacity = 2, next_node = 2\<rparr> \<noteq> [] \<and>
   (\<exists>s'. put 3 30 \<lparr>priorityQ = [(0, \<lparr>key = 1, val = 10\<rparr>), (1, \<lparr>key = 2, val = 20\<rparr>)],
          keyToNode = [(1, 0), (2, 1)], capacity = 2, next_node = 2\<rparr> = Inr s')"
  using example_two_puts_reachable two_positive example_absent_3 example_full
    eviction_branch_safe [OF example_two_puts_reachable two_positive example_absent_3
      example_full, of 30]
  by (intro conjI) simp_all

text \<open>
  C8, as amended. The constructor reports nothing for any capacity, positive or not: it
  returns an empty cache holding the capacity, on which \<open>get\<close> is a miss. With
  capacity 0 the failure comes at the first \<open>put\<close>, which reads the front of the empty
  recency list; with a negative capacity the first \<open>put\<close> returns and stores the entry.
\<close>

theorem construction_accepts_every_capacity:
  "priorityQ (new_LRUCache c) = [] \<and> keyToNode (new_LRUCache c) = [] \<and>
   capacity (new_LRUCache c) = c \<and> reachable c (new_LRUCache c) \<and>
   get k (new_LRUCache c) = Inr (- 1, new_LRUCache c) \<and>
   put k v (new_LRUCache 0) = Inl FrontOfEmptyList \<and>
   (sint c < 0 \<longrightarrow>
      put k v (new_LRUCache c) =
        Inr \<lparr>priorityQ = [(0, \<lparr>key = k, val = v\<rparr>)], keyToNode = [(k, 0)],
             capacity = c, next_node = 1\<rparr>)"
proof -
  have "put k v (new_LRUCache c) =
        Inr \<lparr>priorityQ = [(0, \<lparr>key = k, val = v\<rparr>)], keyToNode = [(k, 0)],
             capacity = c, next_node = 1\<rparr>" if "sint c < 0"
    using size_t_of_int_negative [OF that]
    by (simp add: put_def Let_def push_and_index_def list_push_back_def list_prev_end_def
          umap_find_def umap_insert_def umap_size_def new_LRUCache_def)
  moreover have "get k (new_LRUCache c) = Inr (- 1, new_LRUCache c)"
    by (simp add: get_def umap_find_def new_LRUCache_def)
  ultimately show ?thesis
    by (simp add: put_empty_capacity_0 constructed) (simp add: new_LRUCache_def)
qed

theorem construction_accepts_every_capacity_witness:
  "sint (- 1 :: c_int) < 0 \<and>
   put 1 10 (new_LRUCache (- 1)) =
     Inr \<lparr>priorityQ = [(0, \<lparr>key = 1, val = 10\<rparr>)], keyToNode = [(1, 0)],
          capacity = - 1, next_node = 1\<rparr>"
proof -
  have h: "sint (- 1 :: c_int) < 0" by simp
  with construction_accepts_every_capacity [of "- 1" 1 10] show ?thesis by blast
qed

text \<open>
  The claim C8 as stated fails at capacity 0: construction yields a cache, \<open>get\<close> on it
  is a miss, and the error appears only at the first \<open>put\<close>.
\<close>

theorem capacity_0_error_deferred_counterexample:
  "new_LRUCache 0 = \<lparr>priorityQ = [], keyToNode = [], capacity = 0, next_node = 0\<rparr> \<and>
   get 1 (new_LRUCache 0) = Inr (- 1, new_LRUCache 0) \<and>
   put 1 10 (new_LRUCache 0) = Inl FrontOfEmptyList"
  by (simp add: put_def get_def Let_def evict_def list_front_def umap_find_def umap_size_def
        size_t_of_int_def new_LRUCache_def)

subsection \<open>The order of evictions\<close>

text \<open>
  While the calls name only keys outside a list \<open>base\<close>, the keys of \<open>base\<close> that are
  still cached form a suffix of \<open>base\<close> at the front of the recency list: they leave
  in the order of \<open>base\<close>, from its head.
\<close>

lemma keys_filter:
  "map fst (filter (\<lambda>e. fst e \<noteq> k) xs) = filter (\<lambda>x. x \<noteq> k) (map fst xs)"
  by (induction xs) auto

lemma keys_after_put:
  assumes "reachable c s" "1 \<le> sint c"
  shows "\<exists>s'. put k v s = Inr s' \<and>
              keys_of s' =
                (if k \<in> set (keys_of s) then filter (\<lambda>x. x \<noteq> k) (keys_of s)
                 else if length (keys_of s) = nat (sint c) then tl (keys_of s)
                 else keys_of s) @ [k]"
proof -
  have cp: "coupled s" by (rule reachable_coupled [OF assms(1)])
  have cap: "capacity s = c" by (rule reachable_capacity [OF assms(1)])
  from put_abs [OF cp, of k v] assms(2) reachable_bound [OF assms] cap
  obtain s' where p: "put k v s = Inr s'"
    and c': "contents s' =
                (if k \<in> set (keys_of s) then filter (\<lambda>e. fst e \<noteq> k) (contents s)
                 else if length (contents s) = nat (sint c) then tl (contents s)
                 else contents s) @ [(k, v)]"
    by auto
  from c' have "keys_of s' =
                (if k \<in> set (keys_of s) then filter (\<lambda>x. x \<noteq> k) (keys_of s)
                 else if length (keys_of s) = nat (sint c) then tl (keys_of s)
                 else keys_of s) @ [k]"
    by (simp add: keys_of_contents keys_filter map_tl)
  with p show ?thesis by blast
qed

lemma keys_after_get:
  assumes "coupled s"
  shows "\<exists>v s'. get k s = Inr (v, s') \<and>
              keys_of s' =
                (if k \<in> set (keys_of s) then filter (\<lambda>x. x \<noteq> k) (keys_of s) @ [k]
                 else keys_of s)"
proof (cases "cached s k")
  case None
  then have "k \<notin> set (keys_of s)"
    by (simp add: coupled_cached [OF assms] map_of_eq_None_iff keys_of_contents)
  with get_abs [OF assms, of k] None show ?thesis by (auto simp: keys_of_contents)
next
  case (Some w)
  then have "map_of (contents s) k = Some w" by (simp add: coupled_cached [OF assms])
  then have "(k, w) \<in> set (contents s)" by (rule map_of_SomeD)
  then have "k \<in> set (keys_of s)" by (force simp: keys_of_contents)
  with get_abs [OF assms, of k] Some show ?thesis
    by (auto simp: keys_of_contents keys_filter)
qed

lemma filter_drop_fresh:
  assumes "j \<notin> set base"
  shows "filter (\<lambda>x. x \<noteq> j) (drop n base) = drop n base"
proof (rule filter_True)
  show "\<forall>x \<in> set (drop n base). x \<noteq> j"
    using assms by (auto dest: in_set_dropD)
qed

lemma fresh_step:
  assumes "reachable c s" "1 \<le> sint c"
    and "keys_of s = drop n base @ news" "set news \<inter> set base = {}"
    and "op_key x \<notin> set base"
  shows "\<exists>s' n' news'. step x s = Inr s' \<and> keys_of s' = drop n' base @ news' \<and>
                        set news' \<inter> set base = {}"
proof (cases x)
  case (Get j)
  with assms(5) have j: "j \<notin> set base" by simp
  have cp: "coupled s" by (rule reachable_coupled [OF assms(1)])
  from keys_after_get [OF cp, of j] obtain w s' where
    g: "get j s = Inr (w, s')"
    and k': "keys_of s' =
                (if j \<in> set (keys_of s) then filter (\<lambda>x. x \<noteq> j) (keys_of s) @ [j]
                 else keys_of s)" by blast
  show ?thesis
  proof (cases "j \<in> set (keys_of s)")
    case False
    with k' g Get assms(3,4) show ?thesis by auto
  next
    case True
    with k' have "keys_of s' = drop n base @ (filter (\<lambda>x. x \<noteq> j) news @ [j])"
      by (simp add: assms(3) filter_drop_fresh [OF j])
    moreover have "set (filter (\<lambda>x. x \<noteq> j) news @ [j]) \<inter> set base = {}"
      using assms(4) j by auto
    moreover have "step x s = Inr s'" using g Get by simp
    ultimately show ?thesis by blast
  qed
next
  case (Put j v)
  with assms(5) have j: "j \<notin> set base" by simp
  from keys_after_put [OF assms(1,2), of j v] obtain s' where
    p: "put j v s = Inr s'"
    and k': "keys_of s' =
                (if j \<in> set (keys_of s) then filter (\<lambda>x. x \<noteq> j) (keys_of s)
                 else if length (keys_of s) = nat (sint c) then tl (keys_of s)
                 else keys_of s) @ [j]" by blast
  have "\<exists>n' news'. keys_of s' = drop n' base @ news' \<and> set news' \<inter> set base = {}"
  proof (cases "j \<in> set (keys_of s)")
    case True
    with k' have "keys_of s' = drop n base @ (filter (\<lambda>x. x \<noteq> j) news @ [j])"
      by (simp add: assms(3) filter_drop_fresh [OF j])
    moreover have "set (filter (\<lambda>x. x \<noteq> j) news @ [j]) \<inter> set base = {}"
      using assms(4) j by auto
    ultimately show ?thesis by blast
  next
    case False
    show ?thesis
    proof (cases "length (keys_of s) = nat (sint c)")
      case neq: False
      with False k' have "keys_of s' = drop n base @ (news @ [j])" by (simp add: assms(3))
      moreover have "set (news @ [j]) \<inter> set base = {}" using assms(4) j by auto
      ultimately show ?thesis by blast
    next
      case True
      with False k' have t: "keys_of s' = tl (drop n base @ news) @ [j]" by (simp add: assms(3))
      show ?thesis
      proof (cases "drop n base = []")
        case True
        with t have "keys_of s' = drop n base @ (tl news @ [j])" by simp
        moreover have "set (tl news @ [j]) \<inter> set base = {}"
          using assms(4) j by (cases news) auto
        ultimately show ?thesis by blast
      next
        case False
        with t have "keys_of s' = drop (Suc n) base @ (news @ [j])"
          by (simp add: drop_Suc tl_drop)
        moreover have "set (news @ [j]) \<inter> set base = {}" using assms(4) j by auto
        ultimately show ?thesis by blast
      qed
    qed
  qed
  with p Put show ?thesis by auto
qed

lemma fresh_run:
  assumes "reachable c s" "1 \<le> sint c"
    and "keys_of s = drop n base @ news" "set news \<inter> set base = {}"
    and "\<forall>x \<in> set ops. op_key x \<notin> set base"
  shows "\<exists>s' n' news'. run ops s = Inr s' \<and> keys_of s' = drop n' base @ news' \<and>
                        set news' \<inter> set base = {}"
  using assms
proof (induction ops arbitrary: s n news)
  case Nil
  then show ?case by auto
next
  case (Cons x xs)
  from Cons.prems(5) have x: "op_key x \<notin> set base" and xs: "\<forall>y \<in> set xs. op_key y \<notin> set base"
    by simp_all
  from fresh_step [OF Cons.prems(1-4) x] obtain s1 n1 news1 where
    st: "step x s = Inr s1" and k1: "keys_of s1 = drop n1 base @ news1"
    and d1: "set news1 \<inter> set base = {}" by blast
  have r1: "reachable c s1" by (rule step_reachable [OF Cons.prems(1) st])
  from Cons.IH [OF r1 Cons.prems(2) k1 d1 xs] st show ?case by simp
qed

lemma run_append:
  "run (xs @ ys) s = (case run xs s of Inl err \<Rightarrow> Inl err | Inr s' \<Rightarrow> run ys s')"
  by (induction xs arbitrary: s) (auto split: sum.splits)

lemma puts_fill:
  assumes "reachable c s" "1 \<le> sint c"
    and "distinct (keys_of s @ map fst kvs)"
    and "length (keys_of s) + length kvs \<le> nat (sint c)"
  shows "\<exists>s'. run (map (\<lambda>e. Put (fst e) (snd e)) kvs) s = Inr s' \<and>
              contents s' = contents s @ kvs"
  using assms
proof (induction kvs arbitrary: s)
  case Nil
  then show ?case by simp
next
  case (Cons e kvs)
  have cp: "coupled s" by (rule reachable_coupled [OF Cons.prems(1)])
  have cap: "capacity s = c" by (rule reachable_capacity [OF Cons.prems(1)])
  from Cons.prems(3) have new: "fst e \<notin> set (keys_of s)" by auto
  from Cons.prems(4) have room: "length (contents s) \<noteq> nat (sint c)"
    by (simp add: keys_of_contents)
  from put_abs [OF cp, of "fst e" "snd e"] Cons.prems(2) reachable_bound [OF Cons.prems(1,2)]
    cap new room
  obtain s1 where p: "put (fst e) (snd e) s = Inr s1" and c1: "contents s1 = contents s @ [e]"
    by auto
  have r1: "reachable c s1" by (rule after_put [OF Cons.prems(1) p])
  from Cons.prems(3) c1 have d1: "distinct (keys_of s1 @ map fst kvs)"
    by (auto simp: keys_of_contents)
  from Cons.prems(4) c1 have l1: "length (keys_of s1) + length kvs \<le> nat (sint c)"
    by (simp add: keys_of_contents)
  from Cons.IH [OF r1 Cons.prems(2) d1 l1] p c1 show ?case by auto
qed

lemma overflow_evicts_first:
  assumes "1 \<le> sint c" "distinct (map fst kvs)" "int (length kvs) = sint c + 1"
  shows "\<exists>s. run (map (\<lambda>e. Put (fst e) (snd e)) kvs) (new_LRUCache c) = Inr s \<and>
             contents s = tl kvs \<and> fst (hd kvs) \<notin> set (keys_of s)"
proof -
  from assms(1,3) have len: "length kvs = Suc (nat (sint c))" by simp
  then have ne: "kvs \<noteq> []" by auto
  define front where "front = butlast kvs"
  define e where "e = last kvs"
  from ne have kvs: "kvs = front @ [e]" by (simp add: front_def e_def)
  from len kvs have lf: "length front = nat (sint c)" by simp
  with assms(1) have fne: "front \<noteq> []" by auto
  have r0: "reachable c (new_LRUCache c)" by (rule constructed)
  have k0: "keys_of (new_LRUCache c) = []" by (simp add: keys_of_def new_LRUCache_def)
  from assms(2) kvs have df: "distinct (keys_of (new_LRUCache c) @ map fst front)"
    by (simp add: k0)
  from lf have "length (keys_of (new_LRUCache c)) + length front \<le> nat (sint c)"
    by (simp add: k0)
  from puts_fill [OF r0 assms(1) df this] obtain s1 where
    run1: "run (map (\<lambda>e. Put (fst e) (snd e)) front) (new_LRUCache c) = Inr s1"
    and c1: "contents s1 = front"
    by (auto simp: contents_def new_LRUCache_def)
  have r1: "reachable c s1" by (rule run_reachable [OF r0 run1])
  have cp1: "coupled s1" by (rule reachable_coupled [OF r1])
  have cap1: "capacity s1 = c" by (rule reachable_capacity [OF r1])
  from assms(2) kvs c1 have new: "fst e \<notin> set (keys_of s1)"
    by (auto simp: keys_of_contents)
  from put_abs [OF cp1, of "fst e" "snd e"] assms(1) reachable_bound [OF r1 assms(1)]
    cap1 new lf c1
  obtain s2 where p: "put (fst e) (snd e) s1 = Inr s2" and c2: "contents s2 = tl front @ [e]"
    by auto
  from run1 p have "run (map (\<lambda>e. Put (fst e) (snd e)) kvs) (new_LRUCache c) = Inr s2"
    by (simp add: kvs run_append)
  moreover from c2 fne have "contents s2 = tl kvs" by (simp add: kvs)
  moreover have "fst (hd kvs) \<notin> set (keys_of s2)"
  proof -
    from ne have "kvs = hd kvs # tl kvs" by simp
    with assms(2) have "fst (hd kvs) \<notin> set (map fst (tl kvs))"
      by (metis distinct.simps(2) list.simps(9))
    with \<open>contents s2 = tl kvs\<close> show ?thesis by (simp add: keys_of_contents)
  qed
  ultimately show ?thesis by blast
qed

lemma touched_key_last:
  assumes "reachable c s" "1 \<le> sint c"
    and "put k v s = Inr s' \<or> (umap_find k (keyToNode s) \<noteq> None \<and> get k s = Inr (v, s'))"
  shows "reachable c s' \<and> keys_of s' \<noteq> [] \<and> last (keys_of s') = k"
  using assms(3)
proof
  assume p: "put k v s = Inr s'"
  from keys_after_put [OF assms(1,2), of k v] p
  have "keys_of s' \<noteq> [] \<and> last (keys_of s') = k" by auto
  with after_put [OF assms(1) p] show ?thesis by simp
next
  assume g: "umap_find k (keyToNode s) \<noteq> None \<and> get k s = Inr (v, s')"
  have cp: "coupled s" by (rule reachable_coupled [OF assms(1)])
  from g have "k \<in> set (keys_of s)"
    using present_iff [OF cp, of k] by (simp del: not_None_eq)
  with keys_after_get [OF cp, of k] g
  have "keys_of s' \<noteq> [] \<and> last (keys_of s') = k" by auto
  moreover from g have "reachable c s'" using after_get [OF assms(1)] by blast
  ultimately show ?thesis by simp
qed

lemma evicted_after_the_others:
  assumes "reachable c s'" "1 \<le> sint c"
    and "keys_of s' \<noteq> []" "last (keys_of s') = k"
    and "\<forall>x \<in> set ops. op_key x \<notin> set (keys_of s')"
  shows "\<exists>s''. run ops s' = Inr s'' \<and>
               (k \<notin> set (keys_of s'') \<longrightarrow> set (keys_of s') \<inter> set (keys_of s'') = {})"
proof -
  have k0: "keys_of s' = drop 0 (keys_of s') @ []" by simp
  from fresh_run [OF assms(1,2) k0 _ assms(5)] obtain s'' n news where
    run: "run ops s' = Inr s''" and k2: "keys_of s'' = drop n (keys_of s') @ news"
    and d: "set news \<inter> set (keys_of s') = {}" by auto
  have "set (keys_of s') \<inter> set (keys_of s'') = {}" if gone: "k \<notin> set (keys_of s'')"
  proof -
    have "drop n (keys_of s') = []"
    proof (rule ccontr)
      assume ne: "drop n (keys_of s') \<noteq> []"
      then have "n < length (keys_of s')" by simp
      then have "last (drop n (keys_of s')) = k" by (simp add: assms(4))
      with ne have "k \<in> set (drop n (keys_of s'))" by (metis last_in_set)
      with gone k2 show False by simp
    qed
    with k2 d show ?thesis by auto
  qed
  with run show ?thesis by blast
qed

lemma example_one_put:
  "put 1 10 (new_LRUCache 2) =
     Inr \<lparr>priorityQ = [(0, \<lparr>key = 1, val = 10\<rparr>)], keyToNode = [(1, 0)],
          capacity = 2, next_node = 1\<rparr>"
  by (simp add: put_def Let_def push_and_index_def list_push_back_def list_prev_end_def
        umap_find_def umap_insert_def umap_size_def size_t_of_int_def new_LRUCache_def)

lemma example_second_put:
  "put 2 20 \<lparr>priorityQ = [(0, \<lparr>key = 1, val = 10\<rparr>)], keyToNode = [(1, 0)],
          capacity = 2, next_node = 1\<rparr> =
     Inr \<lparr>priorityQ = [(0, \<lparr>key = 1, val = 10\<rparr>), (1, \<lparr>key = 2, val = 20\<rparr>)],
          keyToNode = [(1, 0), (2, 1)], capacity = 2, next_node = 2\<rparr>"
  by (simp add: put_def Let_def push_and_index_def list_push_back_def list_prev_end_def
        umap_find_def umap_insert_def umap_size_def size_t_of_int_def)

lemma example_two_new_keys:
  "run [Put 3 30, Put 4 40]
     \<lparr>priorityQ = [(0, \<lparr>key = 1, val = 10\<rparr>), (1, \<lparr>key = 2, val = 20\<rparr>)],
          keyToNode = [(1, 0), (2, 1)], capacity = 2, next_node = 2\<rparr> =
     Inr \<lparr>priorityQ = [(2, \<lparr>key = 3, val = 30\<rparr>), (3, \<lparr>key = 4, val = 40\<rparr>)],
          keyToNode = [(3, 2), (4, 3)], capacity = 2, next_node = 4\<rparr>"
  by (simp add: put_def Let_def evict_def push_and_index_def list_front_def list_pop_front_def
        list_push_back_def list_prev_end_def umap_find_def umap_erase_def umap_insert_def
        umap_size_def size_t_of_int_def del: not_None_eq)

lemma example_three_puts:
  "run (map (\<lambda>e. Put (fst e) (snd e)) [(1, 10), (2, 20), (3, 30)]) (new_LRUCache 2) =
     Inr \<lparr>priorityQ = [(1, \<lparr>key = 2, val = 20\<rparr>), (2, \<lparr>key = 3, val = 30\<rparr>)],
          keyToNode = [(2, 1), (3, 2)], capacity = 2, next_node = 3\<rparr>"
  by (simp add: put_def Let_def evict_def push_and_index_def list_front_def list_pop_front_def
        list_push_back_def list_prev_end_def umap_find_def umap_erase_def umap_insert_def
        umap_size_def size_t_of_int_def new_LRUCache_def del: not_None_eq)

lemma example_read_then_new_key:
  "run [Get 1]
     \<lparr>priorityQ = [(0, \<lparr>key = 1, val = 10\<rparr>), (1, \<lparr>key = 2, val = 20\<rparr>)],
          keyToNode = [(1, 0), (2, 1)], capacity = 2, next_node = 2\<rparr> =
     Inr \<lparr>priorityQ = [(1, \<lparr>key = 2, val = 20\<rparr>), (2, \<lparr>key = 1, val = 10\<rparr>)],
          keyToNode = [(2, 1), (1, 2)], capacity = 2, next_node = 3\<rparr> \<and>
   run [Get 1, Put 3 30]
     \<lparr>priorityQ = [(0, \<lparr>key = 1, val = 10\<rparr>), (1, \<lparr>key = 2, val = 20\<rparr>)],
          keyToNode = [(1, 0), (2, 1)], capacity = 2, next_node = 2\<rparr> =
     Inr \<lparr>priorityQ = [(2, \<lparr>key = 1, val = 10\<rparr>), (3, \<lparr>key = 3, val = 30\<rparr>)],
          keyToNode = [(1, 2), (3, 3)], capacity = 2, next_node = 4\<rparr>"
  by (simp add: put_def get_def Let_def evict_def erase_both_def push_and_index_def
        list_deref_def list_erase_def list_front_def list_pop_front_def
        list_push_back_def list_prev_end_def umap_find_def umap_erase_def umap_insert_def
        umap_size_def size_t_of_int_def del: not_None_eq)

lemma example_one_put_reachable:
  "reachable 2 \<lparr>priorityQ = [(0, \<lparr>key = 1, val = 10\<rparr>)], keyToNode = [(1, 0)],
          capacity = 2, next_node = 1\<rparr>"
  by (rule after_put [OF constructed example_one_put])

text \<open>
  C1, as amended. For a cache constructed with a positive capacity: after \<open>put k v\<close>
  or a hitting \<open>get k\<close>, \<open>k\<close> is the last key of the recency list, and as long as
  the later calls name neither \<open>k\<close> nor any other key cached at that moment, at every
  point of the run where \<open>k\<close> is no longer cached none of the keys cached at that
  moment is: \<open>k\<close> is evicted after all of them. And inserting capacity + 1 distinct
  keys into a new cache by \<open>put\<close> alone leaves exactly the inserted entries but the
  first, in their order.
\<close>

theorem lru_eviction_order:
  "(reachable c s \<and> 1 \<le> sint c \<and>
    (put k v s = Inr s' \<or> (umap_find k (keyToNode s) \<noteq> None \<and> get k s = Inr (v, s'))) \<and>
    (\<forall>x \<in> set ops. op_key x \<notin> set (keys_of s')) \<longrightarrow>
      keys_of s' \<noteq> [] \<and> last (keys_of s') = k \<and>
      (\<forall>i. \<exists>si. run (take i ops) s' = Inr si \<and>
         (k \<notin> set (keys_of si) \<longrightarrow> set (keys_of s') \<inter> set (keys_of si) = {}))) \<and>
   (1 \<le> sint c \<and> distinct (map fst kvs) \<and> int (length kvs) = sint c + 1 \<longrightarrow>
      (\<exists>s. run (map (\<lambda>e. Put (fst e) (snd e)) kvs) (new_LRUCache c) = Inr s \<and>
           contents s = tl kvs \<and> fst (hd kvs) \<notin> set (keys_of s)))"
proof (intro conjI impI)
  assume h: "reachable c s \<and> 1 \<le> sint c \<and>
    (put k v s = Inr s' \<or> (umap_find k (keyToNode s) \<noteq> None \<and> get k s = Inr (v, s'))) \<and>
    (\<forall>x \<in> set ops. op_key x \<notin> set (keys_of s'))"
  then have r: "reachable c s" and c: "1 \<le> sint c"
    and t: "put k v s = Inr s' \<or> (umap_find k (keyToNode s) \<noteq> None \<and> get k s = Inr (v, s'))"
    and f: "\<forall>x \<in> set ops. op_key x \<notin> set (keys_of s')"
    by blast+
  from touched_key_last [OF r c t] have r': "reachable c s'"
    and ne: "keys_of s' \<noteq> []" and l: "last (keys_of s') = k" by blast+
  show "keys_of s' \<noteq> []" by (rule ne)
  show "last (keys_of s') = k" by (rule l)
  show "\<forall>i. \<exists>si. run (take i ops) s' = Inr si \<and>
         (k \<notin> set (keys_of si) \<longrightarrow> set (keys_of s') \<inter> set (keys_of si) = {})"
  proof
    fix i
    from f have "\<forall>x \<in> set (take i ops). op_key x \<notin> set (keys_of s')"
      by (auto dest: in_set_takeD)
    from evicted_after_the_others [OF r' c ne l this]
    show "\<exists>si. run (take i ops) s' = Inr si \<and>
         (k \<notin> set (keys_of si) \<longrightarrow> set (keys_of s') \<inter> set (keys_of si) = {})" .
  qed
next
  assume "1 \<le> sint c \<and> distinct (map fst kvs) \<and> int (length kvs) = sint c + 1"
  then show "\<exists>s. run (map (\<lambda>e. Put (fst e) (snd e)) kvs) (new_LRUCache c) = Inr s \<and>
           contents s = tl kvs \<and> fst (hd kvs) \<notin> set (keys_of s)"
    using overflow_evicts_first [of c kvs] by blast
qed

theorem lru_eviction_order_witness:
  "reachable 2 \<lparr>priorityQ = [(0, \<lparr>key = 1, val = 10\<rparr>)], keyToNode = [(1, 0)],
          capacity = 2, next_node = 1\<rparr> \<and>
   1 \<le> sint (2 :: c_int) \<and>
   put 2 20 \<lparr>priorityQ = [(0, \<lparr>key = 1, val = 10\<rparr>)], keyToNode = [(1, 0)],
          capacity = 2, next_node = 1\<rparr> =
     Inr \<lparr>priorityQ = [(0, \<lparr>key = 1, val = 10\<rparr>), (1, \<lparr>key = 2, val = 20\<rparr>)],
          keyToNode = [(1, 0), (2, 1)], capacity = 2, next_node = 2\<rparr> \<and>
   keys_of \<lparr>priorityQ = [(0, \<lparr>key = 1, val = 10\<rparr>), (1, \<lparr>key = 2, val = 20\<rparr>)],
          keyToNode = [(1, 0), (2, 1)], capacity = 2, next_node = 2\<rparr> = [1, 2] \<and>
   map op_key [Put 3 30, Put 4 40] = [3, 4] \<and>
   run [Put 3 30, Put 4 40]
     \<lparr>priorityQ = [(0, \<lparr>key = 1, val = 10\<rparr>), (1, \<lparr>key = 2, val = 20\<rparr>)],
          keyToNode = [(1, 0), (2, 1)], capacity = 2, next_node = 2\<rparr> =
     Inr \<lparr>priorityQ = [(2, \<lparr>key = 3, val = 30\<rparr>), (3, \<lparr>key = 4, val = 40\<rparr>)],
          keyToNode = [(3, 2), (4, 3)], capacity = 2, next_node = 4\<rparr> \<and>
   keys_of \<lparr>priorityQ = [(2, \<lparr>key = 3, val = 30\<rparr>), (3, \<lparr>key = 4, val = 40\<rparr>)],
          keyToNode = [(3, 2), (4, 3)], capacity = 2, next_node = 4\<rparr> = [3, 4] \<and>
   set (keys_of \<lparr>priorityQ = [(0, \<lparr>key = 1, val = 10\<rparr>), (1, \<lparr>key = 2, val = 20\<rparr>)],
          keyToNode = [(1, 0), (2, 1)], capacity = 2, next_node = 2\<rparr>) \<inter>
   set (keys_of \<lparr>priorityQ = [(2, \<lparr>key = 3, val = 30\<rparr>), (3, \<lparr>key = 4, val = 40\<rparr>)],
          keyToNode = [(3, 2), (4, 3)], capacity = 2, next_node = 4\<rparr>) = {} \<and>
   distinct (map fst [(1 :: c_int, 10 :: c_int), (2, 20), (3, 30)]) \<and>
   int (length [(1 :: c_int, 10 :: c_int), (2, 20), (3, 30)]) = sint (2 :: c_int) + 1 \<and>
   (\<exists>s. run (map (\<lambda>e. Put (fst e) (snd e)) [(1, 10), (2, 20), (3, 30)]) (new_LRUCache 2) =
          Inr s \<and>
        contents s = tl [(1, 10), (2, 20), (3, 30)] \<and>
        fst (hd [(1 :: c_int, 10 :: c_int), (2, 20), (3, 30)]) \<notin> set (keys_of s))"
proof -
  let ?s1 = "\<lparr>priorityQ = [(0, \<lparr>key = 1, val = 10\<rparr>)], keyToNode = [(1, 0)],
          capacity = 2, next_node = 1\<rparr>"
  let ?s2 = "\<lparr>priorityQ = [(0, \<lparr>key = 1, val = 10\<rparr>), (1, \<lparr>key = 2, val = 20\<rparr>)],
          keyToNode = [(1, 0), (2, 1)], capacity = 2, next_node = 2\<rparr>"
  let ?s4 = "\<lparr>priorityQ = [(2, \<lparr>key = 3, val = 30\<rparr>), (3, \<lparr>key = 4, val = 40\<rparr>)],
          keyToNode = [(3, 2), (4, 3)], capacity = 2, next_node = 4\<rparr>"
  let ?ops = "[Put 3 30, Put 4 40]"
  let ?kvs = "[(1 :: c_int, 10 :: c_int), (2, 20), (3, 30)]"
  note inst = lru_eviction_order [of 2 ?s1 2 20 ?s2 ?ops ?kvs]
  have k2: "keys_of ?s2 = [1, 2]" by (simp add: keys_of_def)
  have k4: "keys_of ?s4 = [3, 4]" by (simp add: keys_of_def)
  have fresh: "\<forall>x \<in> set ?ops. op_key x \<notin> set (keys_of ?s2)" by (simp add: keys_of_def)
  have d: "distinct (map fst ?kvs)" by simp
  have l: "int (length ?kvs) = sint (2 :: c_int) + 1" by simp
  from inst example_one_put_reachable two_positive example_second_put fresh
  have "\<forall>i. \<exists>si. run (take i ?ops) ?s2 = Inr si \<and>
         (2 \<notin> set (keys_of si) \<longrightarrow> set (keys_of ?s2) \<inter> set (keys_of si) = {})"
    by blast
  then have "\<exists>si. run (take 2 ?ops) ?s2 = Inr si \<and>
         (2 \<notin> set (keys_of si) \<longrightarrow> set (keys_of ?s2) \<inter> set (keys_of si) = {})" ..
  then have "2 \<notin> set (keys_of ?s4) \<longrightarrow> set (keys_of ?s2) \<inter> set (keys_of ?s4) = {}"
    using example_two_new_keys by simp
  moreover have "2 \<notin> set (keys_of ?s4)" by (simp add: keys_of_def)
  ultimately have disj: "set (keys_of ?s2) \<inter> set (keys_of ?s4) = {}" by (rule mp)
  from inst two_positive d l
  have over: "\<exists>s. run (map (\<lambda>e. Put (fst e) (snd e)) ?kvs) (new_LRUCache 2) = Inr s \<and>
        contents s = tl ?kvs \<and> fst (hd ?kvs) \<notin> set (keys_of s)"
    by blast
  have m: "map op_key ?ops = [3, 4]" by simp
  from example_one_put_reachable two_positive example_second_put k2 m example_two_new_keys
    k4 disj d l over
  show ?thesis by (intro conjI)
qed

text \<open>
  The claim C1 as stated excludes later touches of \<open>k\<close> only. It fails when another
  cached key is touched: with capacity 2, after \<open>put 1 10\<close> and \<open>put 2 20\<close> the
  calls \<open>get 1\<close> and \<open>put 3 30\<close> do not name key 2, yet key 2 is evicted while key 1,
  cached when key 2 was put, stays cached throughout.
\<close>

theorem lru_other_key_touched_counterexample:
  "run [Put 1 10] (new_LRUCache 2) =
     Inr \<lparr>priorityQ = [(0, \<lparr>key = 1, val = 10\<rparr>)], keyToNode = [(1, 0)],
          capacity = 2, next_node = 1\<rparr> \<and>
   put 2 20 \<lparr>priorityQ = [(0, \<lparr>key = 1, val = 10\<rparr>)], keyToNode = [(1, 0)],
          capacity = 2, next_node = 1\<rparr> =
     Inr \<lparr>priorityQ = [(0, \<lparr>key = 1, val = 10\<rparr>), (1, \<lparr>key = 2, val = 20\<rparr>)],
          keyToNode = [(1, 0), (2, 1)], capacity = 2, next_node = 2\<rparr> \<and>
   keys_of \<lparr>priorityQ = [(0, \<lparr>key = 1, val = 10\<rparr>), (1, \<lparr>key = 2, val = 20\<rparr>)],
          keyToNode = [(1, 0), (2, 1)], capacity = 2, next_node = 2\<rparr> = [1, 2] \<and>
   op_key (Get 1) \<noteq> 2 \<and> op_key (Put 3 30) \<noteq> 2 \<and>
   run [Get 1]
     \<lparr>priorityQ = [(0, \<lparr>key = 1, val = 10\<rparr>), (1, \<lparr>key = 2, val = 20\<rparr>)],
          keyToNode = [(1, 0), (2, 1)], capacity = 2, next_node = 2\<rparr> =
     Inr \<lparr>priorityQ = [(1, \<lparr>key = 2, val = 20\<rparr>), (2, \<lparr>key = 1, val = 10\<rparr>)],
          keyToNode = [(2, 1), (1, 2)], capacity = 2, next_node = 3\<rparr> \<and>
   keys_of \<lparr>priorityQ = [(1, \<lparr>key = 2, val = 20\<rparr>), (2, \<lparr>key = 1, val = 10\<rparr>)],
          keyToNode = [(2, 1), (1, 2)], capacity = 2, next_node = 3\<rparr> = [2, 1] \<and>
   run [Get 1, Put 3 30]
     \<lparr>priorityQ = [(0, \<lparr>key = 1, val = 10\<rparr>), (1, \<lparr>key = 2, val = 20\<rparr>)],
          keyToNode = [(1, 0), (2, 1)], capacity = 2, next_node = 2\<rparr> =
     Inr \<lparr>priorityQ = [(2, \<lparr>key = 1, val = 10\<rparr>), (3, \<lparr>key = 3, val = 30\<rparr>)],
          keyToNode = [(1, 2), (3, 3)], capacity = 2, next_node = 4\<rparr> \<and>
   keys_of \<lparr>priorityQ = [(2, \<lparr>key = 1, val = 10\<rparr>), (3, \<lparr>key = 3, val = 30\<rparr>)],
          keyToNode = [(1, 2), (3, 3)], capacity = 2, next_node = 4\<rparr> = [1, 3] \<and>
   2 \<notin> set (keys_of \<lparr>priorityQ = [(2, \<lparr>key = 1, val = 10\<rparr>), (3, \<lparr>key = 3, val = 30\<rparr>)],
          keyToNode = [(1, 2), (3, 3)], capacity = 2, next_node = 4\<rparr>) \<and>
   set (keys_of \<lparr>priorityQ = [(0, \<lparr>key = 1, val = 10\<rparr>), (1, \<lparr>key = 2, val = 20\<rparr>)],
          keyToNode = [(1, 0), (2, 1)], capacity = 2, next_node = 2\<rparr>) \<inter>
   set (keys_of \<lparr>priorityQ = [(2, \<lparr>key = 1, val = 10\<rparr>), (3, \<lparr>key = 3, val = 30\<rparr>)],
          keyToNode = [(1, 2), (3, 3)], capacity = 2, next_node = 4\<rparr>) \<noteq> {}"
proof -
  have "run [Put 1 10] (new_LRUCache 2) =
     Inr \<lparr>priorityQ = [(0, \<lparr>key = 1, val = 10\<rparr>)], keyToNode = [(1, 0)],
          capacity = 2, next_node = 1\<rparr>"
    by (simp add: example_one_put)
  with example_second_put example_read_then_new_key show ?thesis
    by (simp add: keys_of_def)
qed

end
